theory Spec2Isabelle
  imports Main
begin

section \<open>JavaScript values\<close>

text \<open>
  The values a loading function can resolve with. Functions are known by their identity
  only (\<open>===\<close> on functions compares identity); an object is the list of its own
  properties.
\<close>

datatype js_val =
    Undefined
  | Null
  | JBool bool
  | JNum int
  | JStr string
  | JFun nat
  | JArr "js_val list"
  | JObj "(string \<times> js_val) list"

datatype js_error = TypeError

fun typeof :: "js_val \<Rightarrow> string" where
  "typeof Undefined = ''undefined''"
| "typeof Null = ''object''"
| "typeof (JBool b) = ''boolean''"
| "typeof (JNum n) = ''number''"
| "typeof (JStr s) = ''string''"
| "typeof (JFun f) = ''function''"
| "typeof (JArr xs) = ''object''"
| "typeof (JObj ps) = ''object''"

text \<open>
  \<open>Object.prototype.hasOwnProperty.call(v, key)\<close>: converting \<open>undefined\<close> or
  \<open>null\<close> to an object throws a TypeError. The keys asked for in this program are
  lifecycle names, which no primitive, array or plain function owns.
\<close>

fun hasOwnProperty :: "js_val \<Rightarrow> string \<Rightarrow> js_error + bool" where
  "hasOwnProperty Undefined k = Inl TypeError"
| "hasOwnProperty Null k = Inl TypeError"
| "hasOwnProperty (JObj ps) k = Inr (map_of ps k \<noteq> None)"
| "hasOwnProperty v k = Inr False"

text \<open>Property read \<open>v.key\<close>: a TypeError on \<open>undefined\<close> and \<open>null\<close>.\<close>

fun getProp :: "js_val \<Rightarrow> string \<Rightarrow> js_error + js_val" where
  "getProp Undefined k = Inl TypeError"
| "getProp Null k = Inl TypeError"
| "getProp (JObj ps) k = Inr (case map_of ps k of None \<Rightarrow> Undefined | Some v \<Rightarrow> v)"
| "getProp v k = Inr Undefined"

definition bindE :: "'e + 'a \<Rightarrow> ('a \<Rightarrow> 'e + 'b) \<Rightarrow> 'e + 'b" where
  "bindE m f = (case m of Inl e \<Rightarrow> Inl e | Inr v \<Rightarrow> f v)"

fun truthy :: "js_val \<Rightarrow> bool" where
  "truthy Undefined = False"
| "truthy Null = False"
| "truthy (JBool b) = b"
| "truthy (JNum n) = (n \<noteq> 0)"
| "truthy (JStr s) = (s \<noteq> [])"
| "truthy v = True"

fun is_function :: "js_val \<Rightarrow> bool" where
  "is_function (JFun f) = True"
| "is_function v = False"

text \<open>
  Modelled from the spec: \<open>validLifecycleFn\<close> (lifecycles/lifecycle.helpers.js) is not
  among the source files. The spec: a lifecycle export "may be a single callable or an
  ordered sequence of callables".
\<close>

fun validLifecycleFn :: "js_val \<Rightarrow> bool" where
  "validLifecycleFn (JFun f) = True"
| "validLifecycleFn (JArr xs) = list_all is_function xs"
| "validLifecycleFn v = False"

text \<open>
  Modelled from the spec: \<open>flattenFnArray\<close> (lifecycles/lifecycle.helpers.js) is not
  among the source files. The spec: each lifecycle is "a single function or a sequence
  composed to run in order"; the composition is kept as the list of its steps.
\<close>

fun flattenFnArray :: "js_val \<Rightarrow> string \<Rightarrow> js_val list" where
  "flattenFnArray (JObj ps) k =
     (case map_of ps k of
        None \<Rightarrow> []
      | Some (JArr xs) \<Rightarrow> xs
      | Some v \<Rightarrow> (if truthy v then [v] else []))"
| "flattenFnArray v k = []"

section \<open>Application records (lifecycles/load.js)\<close>

datatype status =
    NOT_LOADED
  | LOADING_SOURCE_CODE
  | NOT_BOOTSTRAPPED
  | BOOTSTRAPPING
  | NOT_MOUNTED
  | MOUNTING
  | MOUNTED
  | UNMOUNTING
  | UNLOADING
  | LOAD_ERROR
  | SKIP_BECAUSE_BROKEN

text \<open>
  The fields of an application or parcel record that \<open>toLoadPromise\<close> reads and writes.
  \<open>loadPromise\<close> holds the identity of the stored in-flight promise, \<open>None\<close> when the
  property is absent; \<open>loadErrorTime\<close> is \<open>null\<close> (\<open>None\<close>) or a timestamp.
\<close>

record appOrParcel =
  name :: string
  status :: status
  loadPromise :: "nat option"
  loadErrorTime :: "nat option"
  bootstrap :: "js_val list"
  mount :: "js_val list"
  unmount :: "js_val list"
  unload :: "js_val list"
  timeouts :: js_val
  overlays :: "js_val list"

text \<open>
  Modelled from the spec: \<open>handleAppError\<close> (applications/app-errors.js) is not among the
  source files. The spec (section 7 and 4.2): the error is reported and the record's status
  moves to the status handed over; it does not throw.
\<close>

definition handleAppError :: "status \<Rightarrow> appOrParcel \<Rightarrow> appOrParcel" where
  "handleAppError newStatus app = app\<lparr>status := newStatus\<rparr>"

text \<open>
  What the loading function \<open>appOrParcel.loadApp(props)\<close> does when it is called: it
  throws, returns something that does not smell like a promise, or returns a promise, which
  later settles.
\<close>

datatype promise_outcome =
    Resolves js_val
  | Rejects js_val

datatype load_return =
    LoadThrows
  | ReturnsNonPromise js_val
  | ReturnsPromise promise_outcome

text \<open>
  The first callback of \<open>toLoadPromise\<close> (load.js lines 35-64), up to the creation of the
  load promise. \<open>p\<close> is the identity of the promise created at line 64.
\<close>

datatype enter_result =
    JoinLoadPromise nat
  | ReturnRecord
  | StartedLoad nat

definition toLoadPromise_enter :: "nat \<Rightarrow> appOrParcel \<Rightarrow> enter_result \<times> appOrParcel" where
  "toLoadPromise_enter p app =
     (case loadPromise app of
        Some q \<Rightarrow> (JoinLoadPromise q, app)
      | None \<Rightarrow>
          if status app \<noteq> NOT_LOADED \<and> status app \<noteq> LOAD_ERROR then (ReturnRecord, app)
          else (StartedLoad p, app\<lparr>status := LOADING_SOURCE_CODE, loadPromise := Some p\<rparr>))"

text \<open>
  Lines 65-85: the loading function is called. \<open>Inl isUserErr\<close>: the callback throws (the
  loading function threw, or its result does not smell like a promise, which sets
  \<open>isUserErr\<close>); \<open>Inr outcome\<close>: it waits for the returned promise.
\<close>

fun toLoadPromise_invoke :: "load_return \<Rightarrow> bool + promise_outcome" where
  "toLoadPromise_invoke LoadThrows = Inl False"
| "toLoadPromise_invoke (ReturnsNonPromise v) = Inl True"
| "toLoadPromise_invoke (ReturnsPromise outcome) = Inr outcome"

text \<open>Lines 93-129: the validation error code, \<open>None\<close> for \<open>undefined\<close>.\<close>

definition validationErrCode :: "js_val \<Rightarrow> js_error + nat option" where
  "validationErrCode appOpts =
     (let c34 = (if typeof appOpts \<noteq> ''object'' then Some 34 else None) in
      bindE (hasOwnProperty appOpts ''bootstrap'') (\<lambda>hasBootstrap.
      bindE (if hasBootstrap then getProp appOpts ''bootstrap'' else Inr Undefined) (\<lambda>b.
      let c35 = (if hasBootstrap \<and> \<not> validLifecycleFn b then Some 35 else c34) in
      bindE (getProp appOpts ''mount'') (\<lambda>m.
      let c36 = (if \<not> validLifecycleFn m then Some 36 else c35) in
      bindE (getProp appOpts ''unmount'') (\<lambda>u.
      let c37 = (if \<not> validLifecycleFn u then Some 37 else c36) in
      Inr c37)))))"

text \<open>
  Lines 85-207: the callback run when the promise of the loading function resolves with
  \<open>val\<close>. The first component is the error the callback throws, if it throws; the second
  is the record as the callback leaves it. \<open>ensureValidAppTimeouts\<close> and \<open>assign\<close> are
  not among the source files; the record keeps what they are given.
\<close>

definition toLoadPromise_resolved :: "js_val \<Rightarrow> appOrParcel \<Rightarrow> js_error option \<times> appOrParcel" where
  "toLoadPromise_resolved val app0 =
     (let app = app0\<lparr>loadErrorTime := None\<rparr>;
          appOpts = val in
      case validationErrCode appOpts of
        Inl e \<Rightarrow> (Some e, app)
      | Inr (Some code) \<Rightarrow> (None, handleAppError SKIP_BECAUSE_BROKEN app)
      | Inr None \<Rightarrow>
          (case bindE (getProp appOpts ''devtools'') (\<lambda>d.
                  if truthy d then getProp d ''overlays'' else Inr d) of
             Inl e \<Rightarrow> (Some e, app)
           | Inr ov \<Rightarrow>
               (let app1 = (if truthy ov then app\<lparr>overlays := overlays app @ [ov]\<rparr> else app) in
                case getProp appOpts ''timeouts'' of
                  Inl e \<Rightarrow> (Some e, app1\<lparr>status := NOT_BOOTSTRAPPED,
                             bootstrap := flattenFnArray appOpts ''bootstrap'',
                             mount := flattenFnArray appOpts ''mount'',
                             unmount := flattenFnArray appOpts ''unmount'',
                             unload := flattenFnArray appOpts ''unload''\<rparr>)
                | Inr t \<Rightarrow>
                    (None, app1\<lparr>status := NOT_BOOTSTRAPPED,
                             bootstrap := flattenFnArray appOpts ''bootstrap'',
                             mount := flattenFnArray appOpts ''mount'',
                             unmount := flattenFnArray appOpts ''unmount'',
                             unload := flattenFnArray appOpts ''unload'',
                             timeouts := t,
                             loadPromise := None\<rparr>))))"

text \<open>
  Lines 210-243: the \<open>catch\<close> callback, which returns the record. \<open>now\<close> is
  \<open>new Date().getTime()\<close>.
\<close>

definition toLoadPromise_catch :: "bool \<Rightarrow> nat \<Rightarrow> appOrParcel \<Rightarrow> appOrParcel" where
  "toLoadPromise_catch isUserErr now app0 =
     (let app = app0\<lparr>loadPromise := None\<rparr> in
      if isUserErr then handleAppError SKIP_BECAUSE_BROKEN app
      else handleAppError LOAD_ERROR (app\<lparr>loadErrorTime := Some now\<rparr>))"

text \<open>How a promise settles: fulfilled with the record, or rejected.\<close>

datatype settlement =
    FulfilledWithRecord
  | RejectedWith js_error

text \<open>
  One call of \<open>toLoadPromise\<close> run to its end with nothing else in between: how the
  returned promise settles, and the record afterwards. The promise of line 64 ends in
  \<open>catch\<close>, whose callback returns the record, so a throw of an earlier callback is
  handed to \<open>toLoadPromise_catch\<close>.
\<close>

definition toLoadPromise :: "nat \<Rightarrow> nat \<Rightarrow> load_return \<Rightarrow> appOrParcel \<Rightarrow> settlement \<times> appOrParcel" where
  "toLoadPromise p now r app =
     (case toLoadPromise_enter p app of
        (StartedLoad q, app1) \<Rightarrow>
          (case toLoadPromise_invoke r of
             Inl isUserErr \<Rightarrow> (FulfilledWithRecord, toLoadPromise_catch isUserErr now app1)
           | Inr (Rejects e) \<Rightarrow> (FulfilledWithRecord, toLoadPromise_catch False now app1)
           | Inr (Resolves v) \<Rightarrow>
               (case toLoadPromise_resolved v app1 of
                  (Some e, app2) \<Rightarrow> (FulfilledWithRecord, toLoadPromise_catch False now app2)
                | (None, app2) \<Rightarrow> (FulfilledWithRecord, app2)))
      | (JoinLoadPromise q, app1) \<Rightarrow> (FulfilledWithRecord, app1)
      | (ReturnRecord, app1) \<Rightarrow> (FulfilledWithRecord, app1))"

subsection \<open>Overlapping calls of \<open>toLoadPromise\<close> on one record\<close>

text \<open>
  Several calls on the same record overlap: each callback of the promise loadChains above runs
  on its own, and callbacks of other calls run in between. \<open>loadChains\<close> holds every load
  promise created at line 64, by identity (its index), with how far its chain has come;
  \<open>loadAppCalls\<close> counts the executions of the loading function; \<open>returned\<close> lists what
  the first callback of each call returned, in the order the callbacks ran.
\<close>

datatype chain =
    Created
  | AwaitingLoad promise_outcome
  | Throwing bool
  | Settled

record load_sys =
  theApp :: appOrParcel
  loadChains :: "chain list"
  loadAppCalls :: nat
  returned :: "enter_result list"

datatype load_label =
    Call
  | Invoke nat load_return
  | Settle nat
  | Catch nat nat

text \<open>
  \<open>Call\<close>: the first callback of one more call runs. \<open>Invoke p r\<close>: the second callback
  of chain \<open>p\<close> runs, and the loading function does \<open>r\<close>. \<open>Settle p\<close>: the promise the
  loading function returned settles. \<open>Catch p now\<close>: the \<open>catch\<close> callback of chain
  \<open>p\<close> runs at time \<open>now\<close>. A label that cannot happen in a state gives \<open>None\<close>.
\<close>

fun load_step :: "load_label \<Rightarrow> load_sys \<Rightarrow> load_sys option" where
  "load_step Call s =
     (case toLoadPromise_enter (length (loadChains s)) (theApp s) of
        (StartedLoad p, app') \<Rightarrow>
          Some (s\<lparr>theApp := app', loadChains := loadChains s @ [Created],
                  returned := returned s @ [StartedLoad p]\<rparr>)
      | (r, app') \<Rightarrow> Some (s\<lparr>theApp := app', returned := returned s @ [r]\<rparr>))"
| "load_step (Invoke p r) s =
     (if p < length (loadChains s) \<and> loadChains s ! p = Created then
        Some (s\<lparr>loadAppCalls := Suc (loadAppCalls s),
                loadChains := (loadChains s)[p :=
                  (case toLoadPromise_invoke r of
                     Inl isUserErr \<Rightarrow> Throwing isUserErr
                   | Inr outcome \<Rightarrow> AwaitingLoad outcome)]\<rparr>)
      else None)"
| "load_step (Settle p) s =
     (if p < length (loadChains s) then
        (case loadChains s ! p of
           AwaitingLoad (Rejects e) \<Rightarrow> Some (s\<lparr>loadChains := (loadChains s)[p := Throwing False]\<rparr>)
         | AwaitingLoad (Resolves v) \<Rightarrow>
             (case toLoadPromise_resolved v (theApp s) of
                (Some e, app') \<Rightarrow>
                  Some (s\<lparr>theApp := app', loadChains := (loadChains s)[p := Throwing False]\<rparr>)
              | (None, app') \<Rightarrow>
                  Some (s\<lparr>theApp := app', loadChains := (loadChains s)[p := Settled]\<rparr>))
         | _ \<Rightarrow> None)
      else None)"
| "load_step (Catch p now) s =
     (if p < length (loadChains s) then
        (case loadChains s ! p of
           Throwing isUserErr \<Rightarrow>
             Some (s\<lparr>theApp := toLoadPromise_catch isUserErr now (theApp s),
                     loadChains := (loadChains s)[p := Settled]\<rparr>)
         | _ \<Rightarrow> None)
      else None)"

fun load_run :: "load_label list \<Rightarrow> load_sys \<Rightarrow> load_sys option" where
  "load_run [] s = Some s"
| "load_run (l # ls) s = (case load_step l s of None \<Rightarrow> None | Some s' \<Rightarrow> load_run ls s')"

definition load_init :: "appOrParcel \<Rightarrow> load_sys" where
  "load_init app = \<lparr>theApp = app, loadChains = [], loadAppCalls = 0, returned = []\<rparr>"

text \<open>A chain is in flight from its creation until its last callback has run.\<close>

definition in_flight :: "load_sys \<Rightarrow> nat list" where
  "in_flight s = filter (\<lambda>p. loadChains s ! p \<noteq> Settled) [0 ..< length (loadChains s)]"

definition settled_loads :: "load_sys \<Rightarrow> nat" where
  "settled_loads s = length (filter (\<lambda>c. c = Settled) (loadChains s))"

text \<open>A record as registration leaves it, before its first load.\<close>

definition newApp :: "string \<Rightarrow> appOrParcel" where
  "newApp n = \<lparr>name = n, status = NOT_LOADED, loadPromise = None, loadErrorTime = None,
     bootstrap = [], mount = [], unmount = [], unload = [], timeouts = Undefined, overlays = []\<rparr>"

subsection \<open>The validation of a load result, in words\<close>

text \<open>
  The two readings of the validation that the properties below compare with
  \<open>validationErrCode\<close>. \<open>load_export_valid\<close>: an object whose \<open>mount\<close> and
  \<open>unmount\<close> are valid lifecycle functions, and whose \<open>bootstrap\<close> is valid if it has
  one. \<open>claimed_valid\<close>: the reading in which \<open>unmount\<close>, like \<open>bootstrap\<close>, is
  looked at only if present.
\<close>

fun own :: "js_val \<Rightarrow> string \<Rightarrow> js_val option" where
  "own (JObj ps) k = map_of ps k"
| "own v k = None"

definition required_ok :: "js_val \<Rightarrow> string \<Rightarrow> bool" where
  "required_ok v k = (case own v k of Some f \<Rightarrow> validLifecycleFn f | None \<Rightarrow> False)"

definition optional_ok :: "js_val \<Rightarrow> string \<Rightarrow> bool" where
  "optional_ok v k = (case own v k of Some f \<Rightarrow> validLifecycleFn f | None \<Rightarrow> True)"

definition load_export_valid :: "js_val \<Rightarrow> bool" where
  "load_export_valid v \<longleftrightarrow>
     typeof v = ''object'' \<and> required_ok v ''mount'' \<and> required_ok v ''unmount'' \<and>
     optional_ok v ''bootstrap''"

definition claimed_valid :: "js_val \<Rightarrow> bool" where
  "claimed_valid v \<longleftrightarrow>
     typeof v = ''object'' \<and> required_ok v ''mount'' \<and> optional_ok v ''bootstrap'' \<and>
     optional_ok v ''unmount''"

text \<open>
  The invariant of overlapping loads: a chain that is still in flight is the one the record
  stores, and the loading function has run once for every chain past its creation.
\<close>

definition load_inv :: "load_sys \<Rightarrow> bool" where
  "load_inv s \<longleftrightarrow>
     (\<forall>p < length (loadChains s). loadChains s ! p \<noteq> Settled \<longrightarrow> loadPromise (theApp s) = Some p) \<and>
     loadAppCalls s = length (filter (\<lambda>c. c \<noteq> Created) (loadChains s))"

text \<open>A run of three overlapping calls, and the state it ends in.\<close>

definition dedup_run :: "load_label list" where
  "dedup_run =
     [Call, Call,
      Invoke 0 (ReturnsPromise (Resolves (JObj [(''mount'', JFun 1), (''unmount'', JFun 2)]))),
      Call]"

definition dedup_state :: load_sys where
  "dedup_state =
     \<lparr>theApp = (newApp ''navbar'')\<lparr>status := LOADING_SOURCE_CODE, loadPromise := Some 0\<rparr>,
      loadChains = [AwaitingLoad (Resolves (JObj [(''mount'', JFun 1), (''unmount'', JFun 2)]))],
      loadAppCalls = 1,
      returned = [StartedLoad 0, JoinLoadPromise 0, JoinLoadPromise 0]\<rparr>"

section \<open>Captured navigation listeners (navigation/navigation-events.js)\<close>

text \<open>
  A DOM event, as far as this program looks at it: its \<open>type\<close>, and an identity that
  tells two events of one type apart. \<open>eventArguments\<close> is the \<open>arguments\<close> object of
  \<open>urlReroute\<close>, which holds the event, or \<open>undefined\<close> (\<open>None\<close>).
\<close>

record event =
  ev_type :: string
  ev_id :: nat

definition routingEventsListeningTo :: "string list" where
  "routingEventsListeningTo = [''hashchange'', ''popstate'']"

text \<open>
  The state the patched \<open>addEventListener\<close> and \<open>removeEventListener\<close> work on: the two
  arrays of \<open>capturedEventListeners\<close> (listener functions by identity, in the order of
  their registration), and the calls handed on to the original \<open>window.addEventListener\<close>
  and \<open>window.removeEventListener\<close>, in order.
\<close>

record listeners =
  hashchangeListeners :: "nat list"
  popstateListeners :: "nat list"
  nativeAdded :: "(string \<times> js_val) list"
  nativeRemoved :: "(string \<times> js_val) list"

definition captured :: "string \<Rightarrow> listeners \<Rightarrow> nat list" where
  "captured eventName w =
     (if eventName = ''hashchange'' then hashchangeListeners w
      else if eventName = ''popstate'' then popstateListeners w
      else [])"

definition set_captured :: "string \<Rightarrow> nat list \<Rightarrow> listeners \<Rightarrow> listeners" where
  "set_captured eventName ls w =
     (if eventName = ''hashchange'' then w\<lparr>hashchangeListeners := ls\<rparr>
      else if eventName = ''popstate'' then w\<lparr>popstateListeners := ls\<rparr>
      else w)"

text \<open>
  \<open>find\<close> (utils/find.js) is not among the source files; it is read as the search for the
  first element that satisfies the predicate, \<open>null\<close> when there is none. The elements
  searched here are functions, which are truthy, so \<open>!find(...)\<close> holds exactly when
  nothing is found.
\<close>

definition find_js :: "'a list \<Rightarrow> ('a \<Rightarrow> bool) \<Rightarrow> 'a option" where
  "find_js arr func = List.find func arr"

text \<open>The patched \<open>window.addEventListener\<close> (lines 188-200).\<close>

definition addEventListener :: "string \<Rightarrow> js_val \<Rightarrow> listeners \<Rightarrow> listeners" where
  "addEventListener eventName fn w =
     (case fn of
        JFun f \<Rightarrow>
          if eventName \<in> set routingEventsListeningTo \<and>
             find_js (captured eventName w) (\<lambda>listener. listener = f) = None
          then set_captured eventName (captured eventName w @ [f]) w
          else w\<lparr>nativeAdded := nativeAdded w @ [(eventName, fn)]\<rparr>
      | _ \<Rightarrow> w\<lparr>nativeAdded := nativeAdded w @ [(eventName, fn)]\<rparr>)"

text \<open>The patched \<open>window.removeEventListener\<close> (lines 202-212).\<close>

definition removeEventListener :: "string \<Rightarrow> js_val \<Rightarrow> listeners \<Rightarrow> listeners" where
  "removeEventListener eventName listenerFn w =
     (let w1 = (case listenerFn of
                  JFun f \<Rightarrow>
                    if eventName \<in> set routingEventsListeningTo
                    then set_captured eventName (filter (\<lambda>fn. fn \<noteq> f) (captured eventName w)) w
                    else w
                | _ \<Rightarrow> w)
      in w1\<lparr>nativeRemoved := nativeRemoved w1 @ [(eventName, listenerFn)]\<rparr>)"

text \<open>
  \<open>patchHistoryApi\<close>, lines 181-182, registers \<open>urlReroute\<close> for both event kinds with the
  original \<open>addEventListener\<close>, before it is patched. \<open>urlReroute\<close> is the function with
  identity 0. \<open>patched_window\<close> is a fresh window after \<open>patchHistoryApi\<close>: the arrays of
  captured listeners start empty (lines 11-14).
\<close>

definition patchHistoryApi :: "listeners \<Rightarrow> listeners" where
  "patchHistoryApi w =
     w\<lparr>nativeAdded := nativeAdded w @ [(''hashchange'', JFun 0), (''popstate'', JFun 0)]\<rparr>"

definition patched_window :: listeners where
  "patched_window =
     patchHistoryApi \<lparr>hashchangeListeners = [], popstateListeners = [], nativeAdded = [],
                      nativeRemoved = []\<rparr>"

text \<open>
  \<open>callCapturedEventListeners\<close> (lines 71-94): the calls \<open>listener.apply(this,
  eventArguments)\<close> it makes, in order, each as the listener and the event it is given. A
  listener that throws does not stop the loop (the error is thrown again from a timer).
\<close>

definition callCapturedEventListeners :: "event option \<Rightarrow> listeners \<Rightarrow> (nat \<times> event) list" where
  "callCapturedEventListeners eventArguments w =
     (case eventArguments of
        None \<Rightarrow> []
      | Some ev \<Rightarrow>
          if ev_type ev \<in> set routingEventsListeningTo
          then map (\<lambda>listener. (listener, ev)) (captured (ev_type ev) w)
          else [])"

text \<open>Every array of captured listeners holds each function at most once.\<close>

definition registry_distinct :: "listeners \<Rightarrow> bool" where
  "registry_distinct w \<longleftrightarrow> distinct (hashchangeListeners w) \<and> distinct (popstateListeners w)"

section \<open>The reroute cycle (navigation/reroute.js)\<close>

subsection \<open>Data\<close>

type_synonym app = string

type_synonym url = string

text \<open>
  A queued caller of \<open>reroute\<close>: \<open>{resolve, reject, eventArguments}\<close>. \<open>caller\<close> is the
  identity of the promise whose \<open>resolve\<close> and \<open>reject\<close> the entry holds.
\<close>

record pending =
  caller :: nat
  p_eventArguments :: "event option"

text \<open>
  What \<open>getAppChanges()\<close> returns. \<open>getAppChanges\<close> and \<open>getMountedApps\<close>
  (applications/apps.js) read the registry of applications, which is not among the source
  files; their current results are part of the state and change from outside.
\<close>

record app_changes =
  chg_appsToUnload :: "app list"
  chg_appsToUnmount :: "app list"
  chg_appsToLoad :: "app list"
  chg_appsToMount :: "app list"

datatype lifecycle = Load | Bootstrap | Mount | Unmount | Unload

text \<open>
  What can be observed of a run, each tagged with the cycle (its index) it comes from:
  a \<open>single-spa:\<close> event dispatched on the window, the body of
  \<open>callAllEventListeners\<close> entered (a release of the buffered events), a captured
  listener called with an event, a call of \<open>toLoadPromise\<close>, \<open>toBootstrapPromise\<close>, \<open>toMountPromise\<close>,
  \<open>toUnmountPromise\<close> or \<open>toUnloadPromise\<close> on an application, the original
  \<open>replaceState\<close> called with a url reference (whether it returns or throws), and the
  \<open>resolve\<close> (with the list of mounted applications) or \<open>reject\<close> of a queued caller.
\<close>

datatype obs =
    Dispatched nat string
  | ListenersReleased nat
  | ListenerCalled nat nat event
  | LifecycleCalled nat lifecycle app
  | ReplacedState nat url
  | PendingResolved nat nat "app list"
  | PendingRejected nat nat

datatype pstate = Pending | Fulfilled | Rejected

text \<open>
  An element of \<open>allUnmountPromises\<close> (line 235): for an application to unmount, the chain
  \<open>toUnmountPromise(app).then(toUnloadPromise)\<close>; for an application to unload,
  \<open>toUnloadPromise(app)\<close>.
\<close>

datatype uu = Unmounting | Unloading | UUFulfilled | UURejected

text \<open>
  An element of \<open>loadThenMountPromises\<close> or \<open>mountPromises\<close>: how far the chain
  \<open>toLoadPromise(app).then(app => tryToBootstrapAndMount(app, unmountAllPromise))\<close>, or
  \<open>tryToBootstrapAndMount(app, unmountAllPromise)\<close> alone, has come. In
  \<open>AwaitUnmountThenMount\<close> the callback of line 489 waits on \<open>unmountAllPromise\<close>; in
  \<open>AwaitUnmountSkip\<close> the callback of line 494 does.
\<close>

datatype tbm =
    Loading
  | Bootstrapping
  | AwaitUnmountThenMount
  | AwaitUnmountSkip
  | Mounting
  | ChainFulfilled
  | ChainRejected

text \<open>
  Where the promise chain of one call of \<open>reroute\<close> stands. Started mode
  (\<open>performAppChanges\<close>): \<open>Scheduled\<close> before the callback of line 176 has run,
  \<open>AwaitCancel\<close> while line 192 waits for the cancel promises, \<open>Cancelled\<close> after lines
  196-223, \<open>CancelFailed\<close> when \<open>replaceState\<close> has thrown in line 198 and the callback
  has ended there, \<open>AwaitUnmountAll\<close> after lines 227-295, \<open>UnmountFailed\<close> after lines
  296-298, \<open>AwaitMounts\<close> after lines 300-307, \<open>MountFailed\<close> after lines 308-310,
  \<open>Finished\<close> after \<open>finishUpAndReturn\<close>. Before \<open>start()\<close> (\<open>loadApps\<close>):
  \<open>LoadScheduled\<close>, \<open>LoadAwait\<close>, \<open>LoadFinished\<close>, \<open>LoadFailed\<close>.
\<close>

datatype pc =
    Scheduled
  | AwaitCancel
  | Cancelled
  | CancelFailed
  | AwaitUnmountAll
  | UnmountFailed
  | AwaitMounts
  | MountFailed
  | Finished
  | LoadScheduled
  | LoadAwait
  | LoadFinished
  | LoadFailed

text \<open>
  The closure of one call of \<open>reroute\<close> that was not queued: its parameters, the
  variables of lines 76-81, and the promises created by \<open>performAppChanges\<close> or
  \<open>loadApps\<close>. \<open>cancelPromises\<close> holds, for each promise pushed by
  \<open>cancelNavigation\<close>, the value it is fulfilled with.
\<close>

record cycle =
  pendingPromises :: "pending list"
  eventArguments :: "event option"
  silentNavigation :: bool
  appsToUnload :: "app list"
  appsToUnmount :: "app list"
  appsToLoad :: "app list"
  appsToMount :: "app list"
  appsThatChanged :: "app list"
  oldUrl :: url
  newUrl :: url
  cancelPromises :: "js_val list"
  pc :: pc
  allUnmountPromises :: "uu list"
  unmountAllPromise :: pstate
  beforeMountFired :: bool
  loadThenMountPromises :: "tbm list"
  mountPromises :: "tbm list"
  loadPromises :: "pstate list"

text \<open>
  The module variables of reroute.js (\<open>appChangeUnderway\<close>, \<open>peopleWaitingOnAppChange\<close>,
  \<open>currentUrl\<close>) and start.js (\<open>started\<close>), the window (\<open>location.href\<close>,
  \<open>location.origin\<close>, the listeners), the registry of applications as seen through
  \<open>getAppChanges\<close> and \<open>getMountedApps\<close>, every cycle begun so far, and what has been
  observed.
\<close>

record sspa =
  started :: bool
  appChangeUnderway :: bool
  peopleWaitingOnAppChange :: "pending list"
  currentUrl :: url
  location :: url
  origin :: url
  window :: listeners
  appChanges :: app_changes
  mountedApps :: "app list"
  cycles :: "cycle list"
  nextCaller :: nat
  trace :: "obs list"

subsection \<open>\<open>reroute\<close>\<close>

text \<open>
  Lines 39-96. Under way: the caller is queued at the end of \<open>peopleWaitingOnAppChange\<close>
  and nothing else happens. Otherwise a cycle begins: \<open>performAppChanges\<close> (started) or
  \<open>loadApps\<close> (not started) returns a promise whose first callback has not run yet.
  \<open>new_cycle\<close> is the closure as lines 39-43 and 76-94 set it up.
\<close>

definition new_cycle :: "pending list \<Rightarrow> event option \<Rightarrow> bool \<Rightarrow> sspa \<Rightarrow> cycle" where
  "new_cycle pendingPromises' eventArguments' silentNavigation' s =
     (let ch = appChanges s in
      \<lparr>pendingPromises = pendingPromises',
       eventArguments = eventArguments',
       silentNavigation = silentNavigation',
       appsToUnload = chg_appsToUnload ch,
       appsToUnmount = chg_appsToUnmount ch,
       appsToLoad = chg_appsToLoad ch,
       appsToMount = chg_appsToMount ch,
       appsThatChanged =
         (if started s
          then chg_appsToUnload ch @ chg_appsToLoad ch @ chg_appsToUnmount ch @ chg_appsToMount ch
          else chg_appsToLoad ch),
       oldUrl = currentUrl s,
       newUrl = location s,
       cancelPromises = [],
       pc = (if started s then Scheduled else LoadScheduled),
       allUnmountPromises = [],
       unmountAllPromise = Pending,
       beforeMountFired = False,
       loadThenMountPromises = [],
       mountPromises = [],
       loadPromises = []\<rparr>)"

definition reroute :: "pending list \<Rightarrow> event option \<Rightarrow> bool \<Rightarrow> sspa \<Rightarrow> sspa" where
  "reroute pendingPromises' eventArguments' silentNavigation' s =
     (if appChangeUnderway s then
        s\<lparr>peopleWaitingOnAppChange := peopleWaitingOnAppChange s @
              [\<lparr>caller = nextCaller s, p_eventArguments = eventArguments'\<rparr>],
          nextCaller := Suc (nextCaller s)\<rparr>
      else
        s\<lparr>currentUrl := location s,
          appChangeUnderway := started s,
          cycles := cycles s @ [new_cycle pendingPromises' eventArguments' silentNavigation' s]\<rparr>)"

text \<open>\<open>fireSingleSpaEvent\<close> (lines 468-476): what cycle \<open>cid\<close> dispatches.\<close>

definition fireSingleSpaEvent :: "nat \<Rightarrow> cycle \<Rightarrow> string \<Rightarrow> obs list" where
  "fireSingleSpaEvent cid c name' =
     (if \<not> silentNavigation c then [Dispatched cid name'] else [])"

text \<open>
  A captured listener is a function of the page: while it is called it may itself call
  \<open>window.addEventListener\<close> and \<open>window.removeEventListener\<close>, which act on the
  arrays of captured listeners once the history api is patched (\<open>start()\<close>), and are the
  original functions before.
\<close>

datatype listener_action = Adds string js_val | Removes string js_val

fun window_action :: "bool \<Rightarrow> listener_action \<Rightarrow> listeners \<Rightarrow> listeners" where
  "window_action patched (Adds k fn) w =
     (if patched then addEventListener k fn w else w\<lparr>nativeAdded := nativeAdded w @ [(k, fn)]\<rparr>)"
| "window_action patched (Removes k fn) w =
     (if patched then removeEventListener k fn w
      else w\<lparr>nativeRemoved := nativeRemoved w @ [(k, fn)]\<rparr>)"

text \<open>
  \<open>callCapturedEventListeners\<close> called for one event after the other. Each call reads
  \<open>capturedEventListeners[eventType]\<close> afresh and runs \<open>forEach\<close> over the array it
  finds: the listeners called for one event are those captured when its turn comes.
  \<open>forEach\<close> does not visit what is pushed meanwhile, and \<open>removeEventListener\<close>
  assigns a new array and leaves the one being visited alone, so what the listeners do
  shows from the next event on. \<open>script\<close> holds, for the first, second, ... listener call,
  what that listener does to the listeners of the window; a call beyond its end does
  nothing. The result is the calls made and the listeners of the window afterwards.
\<close>

fun replay ::
    "bool \<Rightarrow> event option list \<Rightarrow> listener_action list list \<Rightarrow> listeners \<Rightarrow>
     (nat \<times> event) list \<times> listeners" where
  "replay patched [] script w = ([], w)"
| "replay patched (eventArguments' # events) script w =
     (let calls = callCapturedEventListeners eventArguments' w;
          w1 = fold (window_action patched) (concat (take (length calls) script)) w;
          (later, w2) = replay patched events (drop (length calls) script) w1
      in (calls @ later, w2))"

text \<open>
  \<open>callAllEventListeners\<close> (lines 397-410): the listener calls cycle \<open>cid\<close> makes, first
  for the event of each pending promise in order, then for its own event, and the
  listeners of the window afterwards.
\<close>

definition callAllEventListeners ::
    "nat \<Rightarrow> cycle \<Rightarrow> bool \<Rightarrow> listener_action list list \<Rightarrow> listeners \<Rightarrow> obs list \<times> listeners" where
  "callAllEventListeners cid c patched script w =
     (if \<not> silentNavigation c then
        (let (calls, w') =
               replay patched (map p_eventArguments (pendingPromises c) @ [eventArguments c]) script w
         in (ListenersReleased cid # map (\<lambda>(listener, ev). ListenerCalled cid listener ev) calls, w'))
      else ([], w))"

text \<open>
  \<open>cancelNavigation\<close> (lines 104-124): the value the promise it pushes is fulfilled with.
  The parameter defaults to \<open>true\<close>; a rejection is read as "do not cancel".
\<close>

datatype cancel_input = CancelWith js_val | CancelWithPromise promise_outcome

fun cancelNavigation :: "cancel_input \<Rightarrow> js_val" where
  "cancelNavigation (CancelWith v) = (if v = Undefined then JBool True else v)"
| "cancelNavigation (CancelWithPromise (Resolves v)) = v"
| "cancelNavigation (CancelWithPromise (Rejects e)) = JBool False"

text \<open>One cycle replaced and observations added.\<close>

definition upd_cycle :: "nat \<Rightarrow> cycle \<Rightarrow> obs list \<Rightarrow> sspa \<Rightarrow> sspa" where
  "upd_cycle cid c tr s = s\<lparr>cycles := (cycles s)[cid := c], trace := trace s @ tr\<rparr>"

subsection \<open>\<open>performAppChanges\<close>\<close>

text \<open>
  Lines 176-192: the two events are fired; \<open>inputs\<close> are the arguments with which the
  listeners of \<open>before-routing-event\<close> call \<open>cancelNavigation\<close>. In a silent cycle no
  event is dispatched, so no listener gets hold of \<open>cancelNavigation\<close>.
\<close>

definition performAppChanges_start :: "cancel_input list \<Rightarrow> nat \<Rightarrow> cycle \<Rightarrow> sspa \<Rightarrow> sspa option" where
  "performAppChanges_start inputs cid c s =
     (if pc c = Scheduled then
        Some (upd_cycle cid
          (c\<lparr>cancelPromises := (if silentNavigation c then [] else map cancelNavigation inputs),
             pc := AwaitCancel\<rparr>)
          (fireSingleSpaEvent cid c
             (if length (appsThatChanged c) = 0 then ''before-no-app-change''
              else ''before-app-change'')
           @ fireSingleSpaEvent cid c ''before-routing-event'') s)
      else None)"

text \<open>
  \<open>shouldBeActive\<close> (applications/app.helpers.js) is not among the source files; it is the
  parameter \<open>E\<close>, the eligibility collaborator of the spec: \<open>E app url\<close> tells whether
  the application is active at the url.

  \<open>tryToBootstrapAndMount\<close> (lines 486-496) up to its return: the state of the chain it
  returns and the call it makes.
\<close>

definition tryToBootstrapAndMount ::
    "(app \<Rightarrow> url \<Rightarrow> bool) \<Rightarrow> nat \<Rightarrow> url \<Rightarrow> app \<Rightarrow> tbm \<times> obs list" where
  "tryToBootstrapAndMount E cid href a =
     (if E a href then (Bootstrapping, [LifecycleCalled cid Bootstrap a])
      else (AwaitUnmountSkip, []))"

text \<open>
  \<open>history.replaceState(state, "", ref)\<close> is the browser's: it resolves \<open>ref\<close> as a
  url reference against the url of the page (the page is taken to have no \<open>base\<close>
  element), throws a \<open>SecurityError\<close> when the result is not a url of the origin of the
  page, and makes it the url of the page otherwise. The references handed to it here are
  rests of urls of the page after the origin. Such a rest that begins with one slash is a
  path, and stands for the url of the origin with that path. A rest that begins with two
  slashes (a path whose first segment is empty) is not read as a path but as an authority
  followed by a path: everything up to the next \<open>/\<close>, \<open>?\<close> or \<open>#\<close> names the host.
  \<open>replaceState_url\<close> says what the browser does where that is plain to tell: for a
  path; and for an authority, when it and the host of the page are plain names (lower-case
  letters only, no port, no credentials) under \<open>http\<close> or \<open>https\<close>, so that they name one
  host exactly when they are equal. Elsewhere it is \<open>None\<close>, and the answer of the
  browser comes with the step.
\<close>

datatype replaced = Replaces url | ThrowsSecurityError

definition is_slash :: "char \<Rightarrow> bool" where
  "is_slash c \<longleftrightarrow> c = CHR ''/'' \<or> c = CHR 0x5C"

definition ends_authority :: "char \<Rightarrow> bool" where
  "ends_authority c \<longleftrightarrow> is_slash c \<or> c = CHR ''?'' \<or> c = CHR ''#''"

definition path_absolute :: "string \<Rightarrow> bool" where
  "path_absolute ref \<longleftrightarrow>
     (case ref of
        [] \<Rightarrow> False
      | c # cs \<Rightarrow> c = CHR ''/'' \<and> (case cs of [] \<Rightarrow> True | d # ds \<Rightarrow> \<not> is_slash d))"

definition plain_host :: "string \<Rightarrow> bool" where
  "plain_host h \<longleftrightarrow> h \<noteq> [] \<and> list_all (\<lambda>c. c \<in> set ''abcdefghijklmnopqrstuvwxyz'') h"

definition origin_host :: "url \<Rightarrow> string option" where
  "origin_host org =
     (if take 7 org = ''http://'' then Some (drop 7 org)
      else if take 8 org = ''https://'' then Some (drop 8 org)
      else None)"

definition replaceState_url :: "url \<Rightarrow> string \<Rightarrow> replaced option" where
  "replaceState_url org ref =
     (if path_absolute ref then Some (Replaces (org @ ref))
      else if take 2 ref = ''//'' then
        (let r = dropWhile is_slash ref;
             authority = takeWhile (\<lambda>c. \<not> ends_authority c) r;
             rest = dropWhile (\<lambda>c. \<not> ends_authority c) r
         in case origin_host org of
              None \<Rightarrow> None
            | Some host \<Rightarrow>
                if plain_host host \<and> plain_host authority \<and> (rest = [] \<or> hd rest \<noteq> CHR 0x5C) then
                  if authority = host then
                    Some (Replaces (org @ (if rest = [] \<or> hd rest \<noteq> CHR ''/''
                                           then CHR ''/'' # rest else rest)))
                  else Some ThrowsSecurityError
                else None)
      else None)"

text \<open>
  Lines 196-223, the cancellation, when \<open>replaceState\<close> has made \<open>href\<close> the url of the
  page: the call is that of the original \<open>replaceState\<close> (the saved native function,
  which dispatches no event and so calls no \<open>urlReroute\<close>) with
  \<open>oldUrl.substring(location.origin.length)\<close>, the old url without its origin;
  \<open>currentUrl\<close> follows the url of the page, the flag is cleared, and \<open>reroute\<close> is
  called again with the same pending promises and event, silently.
\<close>

definition navigationCanceled :: "nat \<Rightarrow> cycle \<Rightarrow> url \<Rightarrow> sspa \<Rightarrow> sspa" where
  "navigationCanceled cid c href s =
     (let rel = drop (length (origin s)) (oldUrl c);
          s1 = upd_cycle cid (c\<lparr>pc := Cancelled\<rparr>) [ReplacedState cid rel] s;
          s2 = s1\<lparr>location := href\<rparr>;
          s3 = s2\<lparr>currentUrl := location s2\<rparr>;
          s4 = s3\<lparr>appChangeUnderway := False\<rparr>
      in reroute (pendingPromises c) (eventArguments c) True s4)"

text \<open>
  The same lines when \<open>replaceState\<close> throws: the callback ends at line 198 and the promise
  of \<open>performAppChanges\<close> is rejected. The url of the page and \<open>currentUrl\<close> stay as they
  are, the flag stays set, \<open>reroute\<close> is not called, and the pending promises are neither
  resolved nor rejected.
\<close>

definition replaceStateThrows :: "nat \<Rightarrow> cycle \<Rightarrow> sspa \<Rightarrow> sspa" where
  "replaceStateThrows cid c s =
     upd_cycle cid (c\<lparr>pc := CancelFailed\<rparr>)
       [ReplacedState cid (drop (length (origin s)) (oldUrl c))] s"

definition cancelWith :: "replaced \<Rightarrow> nat \<Rightarrow> cycle \<Rightarrow> sspa \<Rightarrow> sspa" where
  "cancelWith answer cid c s =
     (case answer of
        Replaces href \<Rightarrow> navigationCanceled cid c href s
      | ThrowsSecurityError \<Rightarrow> replaceStateThrows cid c s)"

text \<open>
  Lines 192-295, the callback run when all cancel promises have settled. Cancelled when
  one of their values is truthy. Otherwise every promise of the cycle is created, in the
  order of the source: \<open>toUnloadPromise\<close> for the applications to unload,
  \<open>toUnmountPromise\<close> for those to unmount, \<open>Promise.all\<close> of both (fulfilled at once
  when there is none), \<open>toLoadPromise\<close> for those to load, and \<open>tryToBootstrapAndMount\<close>
  for those to mount that are not also to load.
\<close>

definition performAppChanges_afterCancel ::
    "(app \<Rightarrow> url \<Rightarrow> bool) \<Rightarrow> nat \<Rightarrow> cycle \<Rightarrow> sspa \<Rightarrow> sspa option" where
  "performAppChanges_afterCancel E cid c s =
     (if pc c = AwaitCancel then
        (let navigationIsCanceled = list_ex truthy (cancelPromises c) in
         if navigationIsCanceled then
           map_option (\<lambda>answer. cancelWith answer cid c s)
             (replaceState_url (origin s) (drop (length (origin s)) (oldUrl c)))
         else
           (let unloadPromises = map (\<lambda>a. Unloading) (appsToUnload c);
                unmountUnloadPromises = map (\<lambda>a. Unmounting) (appsToUnmount c);
                allUnmount = unmountUnloadPromises @ unloadPromises;
                mountApps = filter (\<lambda>appToMount. appToMount \<notin> set (appsToLoad c)) (appsToMount c);
                tries = map (tryToBootstrapAndMount E cid (location s)) mountApps
            in Some (upd_cycle cid
                 (c\<lparr>pc := AwaitUnmountAll,
                    allUnmountPromises := allUnmount,
                    unmountAllPromise := (if allUnmount = [] then Fulfilled else Pending),
                    loadThenMountPromises := map (\<lambda>a. Loading) (appsToLoad c),
                    mountPromises := map fst tries\<rparr>)
                 (map (LifecycleCalled cid Unload) (appsToUnload c)
                  @ map (LifecycleCalled cid Unmount) (appsToUnmount c)
                  @ map (LifecycleCalled cid Load) (appsToLoad c)
                  @ concat (map snd tries)) s)))
      else None)"

text \<open>
  The same callback for a cancelled navigation whose reference \<open>replaceState_url\<close> leaves
  open: \<open>answer\<close> is what the browser does with it. A url it accepts is one of the origin
  of the page.
\<close>

definition performAppChanges_cancelAnswered ::
    "replaced \<Rightarrow> nat \<Rightarrow> cycle \<Rightarrow> sspa \<Rightarrow> sspa option" where
  "performAppChanges_cancelAnswered answer cid c s =
     (if pc c = AwaitCancel \<and> list_ex truthy (cancelPromises c) \<and>
         replaceState_url (origin s) (drop (length (origin s)) (oldUrl c)) = None \<and>
         (case answer of
            Replaces href \<Rightarrow> take (length (origin s)) href = origin s
          | ThrowsSecurityError \<Rightarrow> True)
      then Some (cancelWith answer cid c s)
      else None)"

text \<open>
  A promise of \<open>allUnmountPromises\<close> moves on: \<open>toUnmountPromise\<close> settles, and on
  fulfilment the callback \<open>toUnloadPromise\<close> of line 232 is called; or
  \<open>toUnloadPromise\<close> settles. The applications of \<open>allUnmountPromises\<close> are those to
  unmount followed by those to unload.
\<close>

definition unmount_settled :: "nat \<Rightarrow> bool \<Rightarrow> nat \<Rightarrow> cycle \<Rightarrow> sspa \<Rightarrow> sspa option" where
  "unmount_settled i ok cid c s =
     (if i < length (allUnmountPromises c) then
        (case allUnmountPromises c ! i of
           Unmounting \<Rightarrow>
             if ok then
               Some (upd_cycle cid (c\<lparr>allUnmountPromises := (allUnmountPromises c)[i := Unloading]\<rparr>)
                 [LifecycleCalled cid Unload ((appsToUnmount c @ appsToUnload c) ! i)] s)
             else
               Some (upd_cycle cid (c\<lparr>allUnmountPromises := (allUnmountPromises c)[i := UURejected]\<rparr>) [] s)
         | Unloading \<Rightarrow>
             Some (upd_cycle cid
               (c\<lparr>allUnmountPromises :=
                    (allUnmountPromises c)[i := (if ok then UUFulfilled else UURejected)]\<rparr>) [] s)
         | _ \<Rightarrow> None)
      else None)"

text \<open>
  \<open>Promise.all(allUnmountPromises)\<close> (line 238) settles: fulfilled once every element is
  fulfilled, rejected once one is rejected.
\<close>

definition unmountAll_settles :: "nat \<Rightarrow> cycle \<Rightarrow> sspa \<Rightarrow> sspa option" where
  "unmountAll_settles cid c s =
     (if pc c = AwaitUnmountAll \<and> unmountAllPromise c = Pending then
        if list_ex (\<lambda>p. p = UURejected) (allUnmountPromises c)
        then Some (upd_cycle cid (c\<lparr>unmountAllPromise := Rejected\<rparr>) [] s)
        else if list_all (\<lambda>p. p = UUFulfilled) (allUnmountPromises c)
        then Some (upd_cycle cid (c\<lparr>unmountAllPromise := Fulfilled\<rparr>) [] s)
        else None
      else None)"

text \<open>
  Lines 243-276: the callback on \<open>unmountAllPromise\<close> that fires the event before
  mounting. It is the first callback registered on that promise.
\<close>

definition beforeMountRoutingEvent :: "nat \<Rightarrow> cycle \<Rightarrow> sspa \<Rightarrow> sspa option" where
  "beforeMountRoutingEvent cid c s =
     (if unmountAllPromise c = Fulfilled \<and> \<not> beforeMountFired c then
        Some (upd_cycle cid (c\<lparr>beforeMountFired := True\<rparr>)
          (fireSingleSpaEvent cid c ''before-mount-routing-event'') s)
      else None)"

datatype chain_kind = LoadThenMount | PlainMount

definition chains_of :: "chain_kind \<Rightarrow> cycle \<Rightarrow> tbm list" where
  "chains_of k c = (case k of LoadThenMount \<Rightarrow> loadThenMountPromises c | PlainMount \<Rightarrow> mountPromises c)"

definition chain_apps :: "chain_kind \<Rightarrow> cycle \<Rightarrow> app list" where
  "chain_apps k c =
     (case k of
        LoadThenMount \<Rightarrow> appsToLoad c
      | PlainMount \<Rightarrow> filter (\<lambda>appToMount. appToMount \<notin> set (appsToLoad c)) (appsToMount c))"

definition set_chain :: "chain_kind \<Rightarrow> nat \<Rightarrow> tbm \<Rightarrow> cycle \<Rightarrow> cycle" where
  "set_chain k i t c =
     (case k of
        LoadThenMount \<Rightarrow> c\<lparr>loadThenMountPromises := (loadThenMountPromises c)[i := t]\<rparr>
      | PlainMount \<Rightarrow> c\<lparr>mountPromises := (mountPromises c)[i := t]\<rparr>)"

text \<open>
  The promise a chain waits for settles: \<open>toLoadPromise\<close> (then line 283 calls
  \<open>tryToBootstrapAndMount\<close>), \<open>toBootstrapPromise\<close> (then line 489 registers the callback
  on \<open>unmountAllPromise\<close>) or \<open>toMountPromise\<close>. A rejection rejects the chain.
\<close>

definition chain_settled ::
    "(app \<Rightarrow> url \<Rightarrow> bool) \<Rightarrow> chain_kind \<Rightarrow> nat \<Rightarrow> bool \<Rightarrow> nat \<Rightarrow> cycle \<Rightarrow> sspa \<Rightarrow> sspa option" where
  "chain_settled E k i ok cid c s =
     (if i < length (chains_of k c) \<and> i < length (chain_apps k c) then
        (case chains_of k c ! i of
           Loading \<Rightarrow>
             if ok then
               (let (t, tr) = tryToBootstrapAndMount E cid (location s) (chain_apps k c ! i)
                in Some (upd_cycle cid (set_chain k i t c) tr s))
             else Some (upd_cycle cid (set_chain k i ChainRejected c) [] s)
         | Bootstrapping \<Rightarrow>
             Some (upd_cycle cid
               (set_chain k i (if ok then AwaitUnmountThenMount else ChainRejected) c) [] s)
         | Mounting \<Rightarrow>
             Some (upd_cycle cid
               (set_chain k i (if ok then ChainFulfilled else ChainRejected) c) [] s)
         | _ \<Rightarrow> None)
      else None)"

text \<open>
  The callback a chain registered on \<open>unmountAllPromise\<close> runs (lines 489-491 and 494):
  only once that promise is fulfilled, and after the callback of lines 243-261, which was
  registered on it before; when it is rejected the chain is rejected and the callback does
  not run.
\<close>

definition unmountAll_reaction ::
    "(app \<Rightarrow> url \<Rightarrow> bool) \<Rightarrow> chain_kind \<Rightarrow> nat \<Rightarrow> nat \<Rightarrow> cycle \<Rightarrow> sspa \<Rightarrow> sspa option" where
  "unmountAll_reaction E k i cid c s =
     (if i < length (chains_of k c) \<and> i < length (chain_apps k c) then
        (case chains_of k c ! i of
           AwaitUnmountThenMount \<Rightarrow>
             (case unmountAllPromise c of
                Pending \<Rightarrow> None
              | Rejected \<Rightarrow> Some (upd_cycle cid (set_chain k i ChainRejected c) [] s)
              | Fulfilled \<Rightarrow>
                  if \<not> beforeMountFired c then None
                  else if E (chain_apps k c ! i) (location s)
                  then Some (upd_cycle cid (set_chain k i Mounting c)
                         [LifecycleCalled cid Mount (chain_apps k c ! i)] s)
                  else Some (upd_cycle cid (set_chain k i ChainFulfilled c) [] s))
         | AwaitUnmountSkip \<Rightarrow>
             (case unmountAllPromise c of
                Pending \<Rightarrow> None
              | Rejected \<Rightarrow> Some (upd_cycle cid (set_chain k i ChainRejected c) [] s)
              | Fulfilled \<Rightarrow>
                  if \<not> beforeMountFired c then None
                  else Some (upd_cycle cid (set_chain k i ChainFulfilled c) [] s))
         | _ \<Rightarrow> None)
      else None)"

text \<open>
  Lines 295-307: the \<open>catch\<close> and \<open>then\<close> callbacks on \<open>unmountAllPromise\<close>. Both call
  \<open>callAllEventListeners\<close>; after a rejection the error is thrown on and the chain ends.
  The \<open>then\<close> callback hangs on the promise \<open>catch\<close> returns, which follows
  \<open>unmountAllPromise\<close>: on fulfilment it runs after the callback of lines 243-261,
  registered on \<open>unmountAllPromise\<close> before. \<open>script\<close> is what the listeners called do
  to the listeners of the window.
\<close>

definition released :: "nat \<Rightarrow> cycle \<Rightarrow> pc \<Rightarrow> listener_action list list \<Rightarrow> sspa \<Rightarrow> sspa" where
  "released cid c p script s =
     (let (tr, w) = callAllEventListeners cid c (started s) script (window s)
      in upd_cycle cid (c\<lparr>pc := p\<rparr>) tr (s\<lparr>window := w\<rparr>))"

definition performAppChanges_afterUnmountAll ::
    "listener_action list list \<Rightarrow> nat \<Rightarrow> cycle \<Rightarrow> sspa \<Rightarrow> sspa option" where
  "performAppChanges_afterUnmountAll script cid c s =
     (if pc c = AwaitUnmountAll then
        (case unmountAllPromise c of
           Pending \<Rightarrow> None
         | Rejected \<Rightarrow> Some (released cid c UnmountFailed script s)
         | Fulfilled \<Rightarrow>
             if beforeMountFired c then Some (released cid c AwaitMounts script s) else None)
      else None)"

text \<open>
  \<open>finishUpAndReturn\<close> (lines 346-382): the pending promises are resolved, the two events
  fired, the flag cleared, and when callers have queued up meanwhile, \<open>reroute\<close> is called
  once with all of them.
\<close>

definition finishUpAndReturn :: "nat \<Rightarrow> cycle \<Rightarrow> sspa \<Rightarrow> sspa" where
  "finishUpAndReturn cid c s =
     (let s1 = upd_cycle cid (c\<lparr>pc := Finished\<rparr>)
                 (map (\<lambda>promise. PendingResolved cid (caller promise) (mountedApps s))
                    (pendingPromises c)
                  @ fireSingleSpaEvent cid c
                      (if length (appsThatChanged c) = 0 then ''no-app-change'' else ''app-change'')
                  @ fireSingleSpaEvent cid c ''routing-event'') s;
          s2 = s1\<lparr>appChangeUnderway := False\<rparr>
      in if length (peopleWaitingOnAppChange s2) > 0 then
           (let nextPendingPromises = peopleWaitingOnAppChange s2;
                s3 = s2\<lparr>peopleWaitingOnAppChange := []\<rparr>
            in reroute nextPendingPromises None False s3)
         else s2)"

text \<open>
  Lines 307-312: \<open>Promise.all(loadThenMountPromises.concat(mountPromises))\<close> settles. A
  rejection rejects the pending promises and is thrown on; fulfilment runs
  \<open>finishUpAndReturn\<close>.
\<close>

definition performAppChanges_afterMounts :: "nat \<Rightarrow> cycle \<Rightarrow> sspa \<Rightarrow> sspa option" where
  "performAppChanges_afterMounts cid c s =
     (if pc c = AwaitMounts then
        if list_ex (\<lambda>t. t = ChainRejected) (loadThenMountPromises c @ mountPromises c) then
          Some (upd_cycle cid (c\<lparr>pc := MountFailed\<rparr>)
            (map (\<lambda>promise. PendingRejected cid (caller promise)) (pendingPromises c)) s)
        else if list_all (\<lambda>t. t = ChainFulfilled) (loadThenMountPromises c @ mountPromises c) then
          Some (finishUpAndReturn cid c s)
        else None
      else None)"

subsection \<open>\<open>loadApps\<close>\<close>

text \<open>Lines 131-136: every application to load is handed to \<open>toLoadPromise\<close>.\<close>

definition loadApps_start :: "nat \<Rightarrow> cycle \<Rightarrow> sspa \<Rightarrow> sspa option" where
  "loadApps_start cid c s =
     (if pc c = LoadScheduled then
        Some (upd_cycle cid
          (c\<lparr>pc := LoadAwait, loadPromises := map (\<lambda>a. Pending) (appsToLoad c)\<rparr>)
          (map (LifecycleCalled cid Load) (appsToLoad c)) s)
      else None)"

definition load_settled :: "nat \<Rightarrow> bool \<Rightarrow> nat \<Rightarrow> cycle \<Rightarrow> sspa \<Rightarrow> sspa option" where
  "load_settled i ok cid c s =
     (if i < length (loadPromises c) \<and> loadPromises c ! i = Pending then
        Some (upd_cycle cid
          (c\<lparr>loadPromises := (loadPromises c)[i := (if ok then Fulfilled else Rejected)]\<rparr>) [] s)
      else None)"

text \<open>
  Lines 136-153: \<open>Promise.all(loadPromises)\<close> settles; \<open>callAllEventListeners\<close> is called
  on both ways out.
\<close>

definition loadApps_afterLoads ::
    "listener_action list list \<Rightarrow> nat \<Rightarrow> cycle \<Rightarrow> sspa \<Rightarrow> sspa option" where
  "loadApps_afterLoads script cid c s =
     (if pc c = LoadAwait then
        if list_ex (\<lambda>p. p = Rejected) (loadPromises c) then
          Some (released cid c LoadFailed script s)
        else if list_all (\<lambda>p. p = Fulfilled) (loadPromises c) then
          Some (released cid c LoadFinished script s)
        else None
      else None)"

subsection \<open>Runs\<close>

text \<open>
  One step of a run is one callback, or one event from outside. Of a cycle: \<open>Perform\<close>
  (lines 176-192), \<open>CancelsSettled\<close> and \<open>CancelsSettledWith\<close> (lines 192-295),
  \<open>UnmountSettles\<close>,
  \<open>UnmountAllSettles\<close>, \<open>BeforeMount\<close> (lines 243-276), \<open>ChainSettles\<close>,
  \<open>UnmountAllReaction\<close> (lines 489-494), \<open>AfterUnmountAll\<close> (lines 295-307),
  \<open>AfterMounts\<close> (lines 307-312), and the three of \<open>loadApps\<close>.
\<close>

datatype cycle_label =
    Perform "cancel_input list"
  | CancelsSettled
  | CancelsSettledWith replaced
  | UnmountSettles nat bool
  | UnmountAllSettles
  | BeforeMount
  | ChainSettles chain_kind nat bool
  | UnmountAllReaction chain_kind nat
  | AfterUnmountAll "listener_action list list"
  | AfterMounts
  | LoadApps
  | LoadSettles nat bool
  | AfterLoads "listener_action list list"

text \<open>
  From outside: the url changes (within the origin), \<open>reroute\<close> is called for a DOM event
  (\<open>urlReroute\<close>) or with no argument (\<open>triggerAppChange\<close>), \<open>start()\<close> is called, the
  registry of applications changes, a listener is added or removed.
\<close>

datatype label =
    Cyc nat cycle_label
  | Navigate string
  | Reroute "event option"
  | Start
  | SetAppChanges app_changes
  | SetMountedApps "app list"
  | AddListener string js_val
  | RemoveListener string js_val

fun cycle_step ::
    "(app \<Rightarrow> url \<Rightarrow> bool) \<Rightarrow> cycle_label \<Rightarrow> nat \<Rightarrow> cycle \<Rightarrow> sspa \<Rightarrow> sspa option" where
  "cycle_step E (Perform inputs) = performAppChanges_start inputs"
| "cycle_step E CancelsSettled = performAppChanges_afterCancel E"
| "cycle_step E (CancelsSettledWith answer) = performAppChanges_cancelAnswered answer"
| "cycle_step E (UnmountSettles i ok) = unmount_settled i ok"
| "cycle_step E UnmountAllSettles = unmountAll_settles"
| "cycle_step E BeforeMount = beforeMountRoutingEvent"
| "cycle_step E (ChainSettles k i ok) = chain_settled E k i ok"
| "cycle_step E (UnmountAllReaction k i) = unmountAll_reaction E k i"
| "cycle_step E (AfterUnmountAll script) = performAppChanges_afterUnmountAll script"
| "cycle_step E AfterMounts = performAppChanges_afterMounts"
| "cycle_step E LoadApps = loadApps_start"
| "cycle_step E (LoadSettles i ok) = load_settled i ok"
| "cycle_step E (AfterLoads script) = loadApps_afterLoads script"

text \<open>
  \<open>start()\<close> (start.js): sets \<open>started\<close>, patches the history api and calls \<open>reroute()\<close>;
  a second call throws in \<open>patchHistoryApi\<close> before it reaches \<open>reroute\<close>.
\<close>

fun step :: "(app \<Rightarrow> url \<Rightarrow> bool) \<Rightarrow> label \<Rightarrow> sspa \<Rightarrow> sspa option" where
  "step E (Cyc cid l) s =
     (if cid < length (cycles s) then cycle_step E l cid (cycles s ! cid) s else None)"
| "step E (Navigate path) s = Some (s\<lparr>location := origin s @ path\<rparr>)"
| "step E (Reroute ev) s = Some (reroute [] ev False s)"
| "step E Start s =
     (if started s then Some s
      else Some (reroute [] None False
                   (s\<lparr>started := True, window := patchHistoryApi (window s)\<rparr>)))"
| "step E (SetAppChanges ch) s = Some (s\<lparr>appChanges := ch\<rparr>)"
| "step E (SetMountedApps as) s = Some (s\<lparr>mountedApps := as\<rparr>)"
| "step E (AddListener k fn) s =
     Some (s\<lparr>window := (if started s then addEventListener k fn (window s)
                          else (window s)\<lparr>nativeAdded := nativeAdded (window s) @ [(k, fn)]\<rparr>)\<rparr>)"
| "step E (RemoveListener k fn) s =
     Some (s\<lparr>window := (if started s then removeEventListener k fn (window s)
                          else (window s)\<lparr>nativeRemoved := nativeRemoved (window s) @ [(k, fn)]\<rparr>)\<rparr>)"

fun exec :: "(app \<Rightarrow> url \<Rightarrow> bool) \<Rightarrow> label list \<Rightarrow> sspa \<Rightarrow> sspa option" where
  "exec E [] s = Some s"
| "exec E (l # ls) s = (case step E l s of None \<Rightarrow> None | Some s' \<Rightarrow> exec E ls s')"

text \<open>
  The page as the module is loaded: nothing started, no cycle, \<open>currentUrl\<close> the url of the
  page (line 32).
\<close>

definition boot :: "url \<Rightarrow> string \<Rightarrow> app_changes \<Rightarrow> sspa" where
  "boot org path ch =
     \<lparr>started = False, appChangeUnderway = False, peopleWaitingOnAppChange = [],
      currentUrl = org @ path, location = org @ path, origin = org,
      window = \<lparr>hashchangeListeners = [], popstateListeners = [], nativeAdded = [],
                nativeRemoved = []\<rparr>,
      appChanges = ch, mountedApps = [], cycles = [], nextCaller = 0, trace = []\<rparr>"

subsection \<open>Predicates on cycles and observations\<close>

text \<open>
  A cycle of started mode is under way from the call of \<open>reroute\<close> that begins it until
  it is cancelled or \<open>finishUpAndReturn\<close> has run. A cycle that ended in a rejection stays
  under way: nothing clears \<open>appChangeUnderway\<close> for it.
\<close>

definition underway :: "cycle \<Rightarrow> bool" where
  "underway c \<longleftrightarrow>
     pc c = Scheduled \<or> pc c = AwaitCancel \<or> pc c = CancelFailed \<or> pc c = AwaitUnmountAll \<or>
     pc c = UnmountFailed \<or> pc c = AwaitMounts \<or> pc c = MountFailed"

text \<open>The parameters and the variables of lines 76-81, which no callback assigns.\<close>

definition same_closure :: "cycle \<Rightarrow> cycle \<Rightarrow> bool" where
  "same_closure c c' \<longleftrightarrow>
     pendingPromises c' = pendingPromises c \<and> eventArguments c' = eventArguments c \<and>
     silentNavigation c' = silentNavigation c \<and> appsToUnload c' = appsToUnload c \<and>
     appsToUnmount c' = appsToUnmount c \<and> appsToLoad c' = appsToLoad c \<and>
     appsToMount c' = appsToMount c \<and> appsThatChanged c' = appsThatChanged c \<and>
     oldUrl c' = oldUrl c \<and> newUrl c' = newUrl c"

text \<open>
  Every application to unmount or to unload has its promise in \<open>allUnmountPromises\<close>, and
  all of them are fulfilled: every unmount and unload of the cycle has settled.
\<close>

definition unmounts_fulfilled :: "cycle \<Rightarrow> bool" where
  "unmounts_fulfilled c \<longleftrightarrow>
     length (allUnmountPromises c) = length (appsToUnmount c @ appsToUnload c) \<and>
     list_all (\<lambda>p. p = UUFulfilled) (allUnmountPromises c)"

text \<open>
  The promises of lines 227-294 exist from the callback that creates them on.
\<close>

definition launched :: "cycle \<Rightarrow> bool" where
  "launched c \<longleftrightarrow>
     pc c = AwaitUnmountAll \<or> pc c = UnmountFailed \<or> pc c = AwaitMounts \<or> pc c = MountFailed \<or>
     pc c = Finished"

text \<open>
  How the promises of a cycle hang together: \<open>unmountAllPromise\<close> is fulfilled only when
  every unmount and unload is; the chain is past line 300 only when \<open>unmountAllPromise\<close> is
  fulfilled; \<open>finishUpAndReturn\<close> has run only when every load and mount chain is
  fulfilled; and before the promises are created there is none.
\<close>

definition promises_ok :: "cycle \<Rightarrow> bool" where
  "promises_ok c \<longleftrightarrow>
     (pc c = AwaitUnmountAll \<longrightarrow>
        length (allUnmountPromises c) = length (appsToUnmount c @ appsToUnload c)) \<and>
     (unmountAllPromise c = Fulfilled \<longrightarrow> unmounts_fulfilled c) \<and>
     (pc c = AwaitMounts \<or> pc c = Finished \<longrightarrow> unmountAllPromise c = Fulfilled) \<and>
     (pc c = Finished \<longrightarrow>
        list_all (\<lambda>t. t = ChainFulfilled) (loadThenMountPromises c @ mountPromises c)) \<and>
     (\<not> launched c \<longrightarrow>
        allUnmountPromises c = [] \<and> loadThenMountPromises c = [] \<and> mountPromises c = [] \<and>
        unmountAllPromise c = Pending)"

text \<open>
  The cycle is not silent and is past the point where \<open>performAppChanges\<close> (lines 297 and
  305) or \<open>loadApps\<close> (lines 137 and 151) calls \<open>callAllEventListeners\<close>.
\<close>

definition has_released :: "cycle \<Rightarrow> bool" where
  "has_released c \<longleftrightarrow>
     \<not> silentNavigation c \<and>
     (pc c = UnmountFailed \<or> pc c = AwaitMounts \<or> pc c = MountFailed \<or> pc c = Finished \<or>
      pc c = LoadFinished \<or> pc c = LoadFailed)"

text \<open>
  What a callback of cycle \<open>cid\<close>, other than a cancellation that goes through and
  \<open>finishUpAndReturn\<close>, may let be observed, the cycle being \<open>c\<close> and the url \<open>href\<close>
  when it runs.
\<close>

fun obs_ok :: "(app \<Rightarrow> url \<Rightarrow> bool) \<Rightarrow> nat \<Rightarrow> cycle \<Rightarrow> url \<Rightarrow> obs \<Rightarrow> bool" where
  "obs_ok E cid c href (Dispatched k n) = (k = cid \<and> \<not> silentNavigation c)"
| "obs_ok E cid c href (ListenersReleased k) =
     (k = cid \<and> \<not> silentNavigation c \<and>
      (pc c = AwaitUnmountAll \<and> unmountAllPromise c \<noteq> Pending \<or>
       pc c = LoadAwait \<and>
       (list_ex (\<lambda>p. p = Rejected) (loadPromises c) \<or>
        list_all (\<lambda>p. p = Fulfilled) (loadPromises c))))"
| "obs_ok E cid c href (ListenerCalled k l ev) =
     (k = cid \<and> \<not> silentNavigation c \<and>
      (pc c = AwaitUnmountAll \<and> unmountAllPromise c \<noteq> Pending \<or>
       pc c = LoadAwait \<and>
       (list_ex (\<lambda>p. p = Rejected) (loadPromises c) \<or>
        list_all (\<lambda>p. p = Fulfilled) (loadPromises c))))"
| "obs_ok E cid c href (LifecycleCalled k Mount a) =
     (k = cid \<and> unmountAllPromise c = Fulfilled \<and> E a href)"
| "obs_ok E cid c href (LifecycleCalled k Bootstrap a) = (k = cid \<and> E a href)"
| "obs_ok E cid c href (LifecycleCalled k lc a) = (k = cid)"
| "obs_ok E cid c href (ReplacedState k u) = (k = cid \<and> pc c = AwaitCancel)"
| "obs_ok E cid c href (PendingResolved k p as) = False"
| "obs_ok E cid c href (PendingRejected k p) = (k = cid)"

text \<open>The releases, the listener calls and the lifecycle calls among some observations.\<close>

fun is_release :: "obs \<Rightarrow> bool" where
  "is_release (ListenersReleased k) = True"
| "is_release ob = False"

fun is_listener_call :: "obs \<Rightarrow> bool" where
  "is_listener_call (ListenerCalled k l ev) = True"
| "is_listener_call ob = False"

fun is_lifecycle_call :: "obs \<Rightarrow> bool" where
  "is_lifecycle_call (LifecycleCalled k lc a) = True"
| "is_lifecycle_call ob = False"

fun is_load_call :: "obs \<Rightarrow> bool" where
  "is_load_call (LifecycleCalled k Load a) = True"
| "is_load_call ob = False"

definition new_obs :: "sspa \<Rightarrow> sspa \<Rightarrow> obs list" where
  "new_obs s s' = drop (length (trace s)) (trace s')"

subsection \<open>Invariants of runs\<close>

text \<open>The url of the page, \<open>currentUrl\<close> and every \<open>oldUrl\<close> begin with the origin.\<close>

definition url_inv :: "sspa \<Rightarrow> bool" where
  "url_inv s \<longleftrightarrow>
     take (length (origin s)) (location s) = origin s \<and>
     take (length (origin s)) (currentUrl s) = origin s \<and>
     list_all (\<lambda>c. take (length (origin s)) (oldUrl c) = origin s) (cycles s)"

text \<open>
  As many cycles are under way as the flag says: one when \<open>appChangeUnderway\<close> is set, none
  otherwise; and the flag is only set once started.
\<close>

definition flight_inv :: "sspa \<Rightarrow> bool" where
  "flight_inv s \<longleftrightarrow>
     length (filter underway (cycles s)) = (if appChangeUnderway s then 1 else 0) \<and>
     (appChangeUnderway s \<longrightarrow> started s)"

definition promises_inv :: "sspa \<Rightarrow> bool" where
  "promises_inv s \<longleftrightarrow> list_all promises_ok (cycles s)"

text \<open>
  No event was dispatched and no captured listener called on behalf of a silent cycle, and
  every observation is tagged with a cycle that exists.
\<close>

fun obs_cycle :: "obs \<Rightarrow> nat" where
  "obs_cycle (Dispatched k n) = k"
| "obs_cycle (ListenersReleased k) = k"
| "obs_cycle (ListenerCalled k l ev) = k"
| "obs_cycle (LifecycleCalled k lc a) = k"
| "obs_cycle (ReplacedState k u) = k"
| "obs_cycle (PendingResolved k p as) = k"
| "obs_cycle (PendingRejected k p) = k"

fun is_notification :: "obs \<Rightarrow> bool" where
  "is_notification (Dispatched k n) = True"
| "is_notification (ListenersReleased k) = True"
| "is_notification (ListenerCalled k l ev) = True"
| "is_notification ob = False"

definition trace_inv :: "sspa \<Rightarrow> bool" where
  "trace_inv s \<longleftrightarrow>
     list_all (\<lambda>ob. obs_cycle ob < length (cycles s) \<and>
                 (is_notification ob \<longrightarrow> \<not> silentNavigation (cycles s ! obs_cycle ob)))
       (trace s)"

text \<open>
  Each cycle has released the buffered events once if it is past its release point and not
  silent, and not at all otherwise.
\<close>

definition release_inv :: "sspa \<Rightarrow> bool" where
  "release_inv s \<longleftrightarrow>
     (\<forall>cid. count_list (trace s) (ListenersReleased cid) =
        (if cid < length (cycles s) \<and> has_released (cycles s ! cid) then 1 else 0))"

definition all_inv :: "sspa \<Rightarrow> bool" where
  "all_inv s \<longleftrightarrow> url_inv s \<and> flight_inv s \<and> promises_inv s \<and> trace_inv s \<and> release_inv s"

section \<open>A page with two applications\<close>

text \<open>
  The page \<open>http://h/b\<close>: application \<open>a\<close> is mounted and has to go, application \<open>b\<close>
  is loaded and has to be mounted. An application is active at one url only.
\<close>

definition active_at :: "url \<Rightarrow> app \<Rightarrow> url \<Rightarrow> bool" where
  "active_at u0 a u = (u = u0)"

definition swap_changes :: app_changes where
  "swap_changes =
     \<lparr>chg_appsToUnload = [], chg_appsToUnmount = [''a''], chg_appsToLoad = [],
      chg_appsToMount = [''b'']\<rparr>"

text \<open>
  The first cycle after \<open>start()\<close> on that page, with its promises as given, and the
  page with that cycle under way, at a url, having observed the two events before routing,
  the calls \<open>toUnmountPromise(a)\<close> and \<open>toBootstrapPromise(b)\<close>, and \<open>tr\<close> after them.
\<close>

definition swap_cycle :: "pc \<Rightarrow> uu list \<Rightarrow> pstate \<Rightarrow> bool \<Rightarrow> tbm list \<Rightarrow> cycle" where
  "swap_cycle p us ua bm ms =
     \<lparr>pendingPromises = [], eventArguments = None, silentNavigation = False,
      appsToUnload = [], appsToUnmount = [''a''], appsToLoad = [], appsToMount = [''b''],
      appsThatChanged = [''a'', ''b''], oldUrl = ''http://h/b'', newUrl = ''http://h/b'',
      cancelPromises = [], pc = p, allUnmountPromises = us, unmountAllPromise = ua,
      beforeMountFired = bm, loadThenMountPromises = [], mountPromises = ms,
      loadPromises = []\<rparr>"

definition swap_page :: "url \<Rightarrow> cycle \<Rightarrow> obs list \<Rightarrow> sspa" where
  "swap_page href c tr =
     \<lparr>started = True, appChangeUnderway = True, peopleWaitingOnAppChange = [],
      currentUrl = ''http://h/b'', location = href, origin = ''http://h'',
      window = patched_window, appChanges = swap_changes, mountedApps = [],
      cycles = [c], nextCaller = 0,
      trace = [Dispatched 0 ''before-app-change'', Dispatched 0 ''before-routing-event'',
               LifecycleCalled 0 Unmount ''a'', LifecycleCalled 0 Bootstrap ''b''] @ tr\<rparr>"

text \<open>
  The run up to the creation of the promises, and the run on until \<open>a\<close> is unmounted and
  unloaded, \<open>b\<close> is bootstrapped, \<open>unmountAllPromise\<close> is fulfilled and the event before
  mounting has been fired.
\<close>

definition launched_run :: "label list" where
  "launched_run = [Start, Cyc 0 (Perform []), Cyc 0 CancelsSettled]"

definition unmounted_run :: "label list" where
  "unmounted_run =
     launched_run @
     [Cyc 0 (UnmountSettles 0 True), Cyc 0 (ChainSettles PlainMount 0 True),
      Cyc 0 (UnmountSettles 0 True), Cyc 0 UnmountAllSettles, Cyc 0 BeforeMount]"

definition swap_launched :: sspa where
  "swap_launched =
     swap_page ''http://h/b''
       (swap_cycle AwaitUnmountAll [Unmounting] Pending False [Bootstrapping]) []"

definition swap_unmounted :: "url \<Rightarrow> sspa" where
  "swap_unmounted href =
     swap_page href
       (swap_cycle AwaitUnmountAll [UUFulfilled] Fulfilled True [AwaitUnmountThenMount])
       [LifecycleCalled 0 Unload ''a'', Dispatched 0 ''before-mount-routing-event'']"

definition swap_mounting :: sspa where
  "swap_mounting =
     swap_page ''http://h/b'' (swap_cycle AwaitUnmountAll [UUFulfilled] Fulfilled True [Mounting])
       [LifecycleCalled 0 Unload ''a'', Dispatched 0 ''before-mount-routing-event'',
        LifecycleCalled 0 Mount ''b'']"

definition swap_skipped :: sspa where
  "swap_skipped =
     swap_page ''http://h/c''
       (swap_cycle AwaitUnmountAll [UUFulfilled] Fulfilled True [ChainFulfilled])
       [LifecycleCalled 0 Unload ''a'', Dispatched 0 ''before-mount-routing-event'']"

text \<open>The same page after \<open>performAppChanges\<close> has fired its two events, cancellation pending.\<close>

definition swap_awaiting :: sspa where
  "swap_awaiting =
     (swap_page ''http://h/b'' (swap_cycle AwaitCancel [] Pending False []) [])
       \<lparr>trace := [Dispatched 0 ''before-app-change'', Dispatched 0 ''before-routing-event'']\<rparr>"




section \<open>A page where no application changes\<close>

definition no_changes :: app_changes where
  "no_changes =
     \<lparr>chg_appsToUnload = [], chg_appsToUnmount = [], chg_appsToLoad = [], chg_appsToMount = []\<rparr>"

definition pop1 :: event where
  "pop1 = \<lparr>ev_type = ''popstate'', ev_id = 1\<rparr>"

definition hash2 :: event where
  "hash2 = \<lparr>ev_type = ''hashchange'', ev_id = 2\<rparr>"

definition quiet_cycle ::
    "pending list \<Rightarrow> event option \<Rightarrow> bool \<Rightarrow> url \<Rightarrow> url \<Rightarrow> js_val list \<Rightarrow> pc \<Rightarrow> pstate \<Rightarrow> bool \<Rightarrow>
     cycle" where
  "quiet_cycle pp ev sil old new cp p ua bm =
     \<lparr>pendingPromises = pp, eventArguments = ev, silentNavigation = sil,
      appsToUnload = [], appsToUnmount = [], appsToLoad = [], appsToMount = [],
      appsThatChanged = [], oldUrl = old, newUrl = new,
      cancelPromises = cp, pc = p, allUnmountPromises = [], unmountAllPromise = ua,
      beforeMountFired = bm, loadThenMountPromises = [], mountPromises = [],
      loadPromises = []\<rparr>"

definition quiet_page ::
    "bool \<Rightarrow> pending list \<Rightarrow> url \<Rightarrow> listeners \<Rightarrow> cycle list \<Rightarrow> nat \<Rightarrow> obs list \<Rightarrow> sspa" where
  "quiet_page flag queue href w cs n tr =
     \<lparr>started = True, appChangeUnderway = flag, peopleWaitingOnAppChange = queue,
      currentUrl = href, location = href, origin = ''http://h'',
      window = w, appChanges = no_changes, mountedApps = [],
      cycles = cs, nextCaller = n, trace = tr\<rparr>"

text \<open>What the first cycle lets be observed up to its release of the events, and in all.\<close>

definition first_obs :: "obs list" where
  "first_obs =
     [Dispatched 0 ''before-no-app-change'', Dispatched 0 ''before-routing-event'',
      Dispatched 0 ''before-mount-routing-event'', ListenersReleased 0]"

definition first_done :: "obs list" where
  "first_done = first_obs @ [Dispatched 0 ''no-app-change'', Dispatched 0 ''routing-event'']"

definition to_mounts :: "label list" where
  "to_mounts =
     [Cyc 0 (Perform []), Cyc 0 CancelsSettled, Cyc 0 BeforeMount, Cyc 0 (AfterUnmountAll [])]"

text \<open>
  Two calls of \<open>reroute\<close> arrive while the first cycle is under way, which then runs up to
  the last callback of its chain; and the same with no call meanwhile.
\<close>

definition queue_run :: "label list" where
  "queue_run = [Start, Reroute (Some pop1), Reroute (Some hash2)] @ to_mounts"

definition queued_page :: sspa where
  "queued_page =
     quiet_page True
       [\<lparr>caller = 0, p_eventArguments = Some pop1\<rparr>, \<lparr>caller = 1, p_eventArguments = Some hash2\<rparr>]
       ''http://h/b'' patched_window
       [quiet_cycle [] None False ''http://h/b'' ''http://h/b'' [] AwaitMounts Fulfilled True] 2 first_obs"

definition idle_page :: sspa where
  "idle_page =
     quiet_page True [] ''http://h/b'' patched_window
       [quiet_cycle [] None False ''http://h/b'' ''http://h/b'' [] AwaitMounts Fulfilled True] 0 first_obs"

text \<open>
  The first cycle done, the url moves to \<open>/c\<close>, and the cycle for it is cancelled by a
  listener of \<open>before-routing-event\<close>.
\<close>

definition cancel_run :: "label list" where
  "cancel_run = Start # to_mounts @
     [Cyc 0 AfterMounts, Navigate ''/c'', Reroute (Some pop1), Cyc 1 (Perform [CancelWith Undefined])]"

definition second_obs :: "obs list" where
  "second_obs = first_done @
     [Dispatched 1 ''before-no-app-change'', Dispatched 1 ''before-routing-event'']"

definition cancel_page :: sspa where
  "cancel_page =
     quiet_page True [] ''http://h/c'' patched_window
       [quiet_cycle [] None False ''http://h/b'' ''http://h/b'' [] Finished Fulfilled True,
        quiet_cycle [] (Some pop1) False ''http://h/b'' ''http://h/c'' [JBool True] AwaitCancel
          Pending False]
       0 second_obs"

definition reverted_page :: "pc \<Rightarrow> pstate \<Rightarrow> bool \<Rightarrow> bool \<Rightarrow> sspa" where
  "reverted_page p ua bm flag =
     quiet_page flag [] ''http://h/b'' patched_window
       [quiet_cycle [] None False ''http://h/b'' ''http://h/b'' [] Finished Fulfilled True,
        quiet_cycle [] (Some pop1) False ''http://h/b'' ''http://h/c'' [JBool True] Cancelled
          Pending False,
        quiet_cycle [] (Some pop1) True ''http://h/b'' ''http://h/b'' [] p ua bm]
       0 (second_obs @ [ReplacedState 1 ''/b''])"

definition silent_run :: "label list" where
  "silent_run =
     [Cyc 2 (Perform []), Cyc 2 CancelsSettled, Cyc 2 BeforeMount, Cyc 2 (AfterUnmountAll [])]"

text \<open>
  The same run on a page whose path begins with two slashes, \<open>http://h//x/y\<close>: the first
  cycle done, the url moves to \<open>/c\<close>, and a listener cancels the navigation.
\<close>

definition slash_page :: "pc \<Rightarrow> obs list \<Rightarrow> sspa" where
  "slash_page p tr =
     quiet_page True [] ''http://h/c'' patched_window
       [quiet_cycle [] None False ''http://h//x/y'' ''http://h//x/y'' [] Finished Fulfilled True,
        quiet_cycle [] (Some pop1) False ''http://h//x/y'' ''http://h/c'' [JBool True] p
          Pending False]
       0 (second_obs @ tr)"

text \<open>
  A listener of \<open>popstate\<close> is added after the first cycle, and a second cycle runs to its
  end for a \<open>popstate\<close> event.
\<close>

definition once_run :: "label list" where
  "once_run = Start # to_mounts @
     [Cyc 0 AfterMounts, AddListener ''popstate'' (JFun 5), Reroute (Some pop1),
      Cyc 1 (Perform []), Cyc 1 CancelsSettled, Cyc 1 BeforeMount, Cyc 1 (AfterUnmountAll []),
      Cyc 1 AfterMounts]"

definition once_page :: sspa where
  "once_page =
     quiet_page False [] ''http://h/b'' (patched_window\<lparr>popstateListeners := [5]\<rparr>)
       [quiet_cycle [] None False ''http://h/b'' ''http://h/b'' [] Finished Fulfilled True,
        quiet_cycle [] (Some pop1) False ''http://h/b'' ''http://h/b'' [] Finished Fulfilled True]
       0 (second_obs @ [Dispatched 1 ''before-mount-routing-event'', ListenersReleased 1,
                        ListenerCalled 1 5 pop1,
                        Dispatched 1 ''no-app-change'', Dispatched 1 ''routing-event''])"

text \<open>
  Three listeners are added, two events arrive while the first cycle is under way, and the
  second cycle, which batches them, runs up to its release point. \<open>batch_page\<close> is the
  page from there on, with the listeners of \<open>hashchange\<close> as given.
\<close>

definition batch_run :: "label list" where
  "batch_run =
     [Start, AddListener ''popstate'' (JFun 5), AddListener ''hashchange'' (JFun 7),
      AddListener ''popstate'' (JFun 6), Reroute (Some pop1), Reroute (Some hash2)] @ to_mounts @
     [Cyc 0 AfterMounts, Cyc 1 (Perform []), Cyc 1 CancelsSettled, Cyc 1 BeforeMount]"

definition batch_page :: "pc \<Rightarrow> bool \<Rightarrow> listeners \<Rightarrow> obs list \<Rightarrow> sspa" where
  "batch_page p flag w tr =
     quiet_page flag [] ''http://h/b'' w
       [quiet_cycle [] None False ''http://h/b'' ''http://h/b'' [] Finished Fulfilled True,
        quiet_cycle [\<lparr>caller = 0, p_eventArguments = Some pop1\<rparr>,
                     \<lparr>caller = 1, p_eventArguments = Some hash2\<rparr>]
          None False ''http://h/b'' ''http://h/b'' [] p Fulfilled True]
       2 (second_obs @ Dispatched 1 ''before-mount-routing-event'' # tr)"

definition batch_window :: listeners where
  "batch_window = patched_window\<lparr>hashchangeListeners := [7], popstateListeners := [5, 6]\<rparr>"

text \<open>
  The listeners of the window when listener 5, called for the \<open>popstate\<close> event, has
  removed listener 7 of \<open>hashchange\<close>.
\<close>

definition batch_window_removed :: listeners where
  "batch_window_removed =
     patched_window\<lparr>hashchangeListeners := [], popstateListeners := [5, 6],
       nativeRemoved := [(''hashchange'', JFun 7)]\<rparr>"

definition batch_release :: "obs list" where
  "batch_release =
     [ListenersReleased 1, ListenerCalled 1 5 pop1, ListenerCalled 1 6 pop1,
      ListenerCalled 1 7 hash2]"

definition batch_completion :: "obs list" where
  "batch_completion =
     [PendingResolved 1 0 [], PendingResolved 1 1 [], Dispatched 1 ''no-app-change'',
      Dispatched 1 ''routing-event'']"

section \<open>A page that loads before \<open>start()\<close>\<close>

text \<open>
  \<open>reroute\<close> is called before \<open>start()\<close> (as \<open>registerApplication\<close> does), then
  \<open>start()\<close>, then \<open>reroute\<close> again for a \<open>popstate\<close> event; the callback of \<open>loadApps\<close>
  of the first call and the callbacks of \<open>performAppChanges\<close> of the second run after that.
\<close>

definition lazy_changes :: app_changes where
  "lazy_changes =
     \<lparr>chg_appsToUnload = [], chg_appsToUnmount = [], chg_appsToLoad = [''b''],
      chg_appsToMount = []\<rparr>"

definition overlap_run :: "label list" where
  "overlap_run =
     [Reroute None, Start, Reroute (Some pop1), Cyc 0 LoadApps, Cyc 1 (Perform []),
      Cyc 1 CancelsSettled]"

definition lazy_cycle :: "pc \<Rightarrow> pstate \<Rightarrow> tbm list \<Rightarrow> pstate list \<Rightarrow> cycle" where
  "lazy_cycle p ua lt lp =
     \<lparr>pendingPromises = [], eventArguments = None, silentNavigation = False,
      appsToUnload = [], appsToUnmount = [], appsToLoad = [''b''], appsToMount = [],
      appsThatChanged = [''b''], oldUrl = ''http://h/b'', newUrl = ''http://h/b'',
      cancelPromises = [], pc = p, allUnmountPromises = [], unmountAllPromise = ua,
      beforeMountFired = False, loadThenMountPromises = lt, mountPromises = [],
      loadPromises = lp\<rparr>"

definition overlap_page :: sspa where
  "overlap_page =
     \<lparr>started = True, appChangeUnderway = True,
      peopleWaitingOnAppChange = [\<lparr>caller = 0, p_eventArguments = Some pop1\<rparr>],
      currentUrl = ''http://h/b'', location = ''http://h/b'', origin = ''http://h'',
      window = patched_window, appChanges = lazy_changes, mountedApps = [],
      cycles = [lazy_cycle LoadAwait Pending [] [Pending],
                lazy_cycle AwaitUnmountAll Fulfilled [Loading] []],
      nextCaller = 1,
      trace = [LifecycleCalled 0 Load ''b'', Dispatched 1 ''before-app-change'',
               Dispatched 1 ''before-routing-event'', LifecycleCalled 1 Load ''b'']\<rparr>"

section \<open>Properties of \<open>toLoadPromise\<close>\<close>

subsection \<open>Validation of the load result\<close>

lemma getProp_truthy: "truthy d \<Longrightarrow> getProp d k \<noteq> Inl e"
  by (cases d) auto

lemma validationErrCode_iff:
  assumes "val \<noteq> Undefined" and "val \<noteq> Null"
  shows "\<exists>c. validationErrCode val = Inr c \<and> (c = None \<longleftrightarrow> load_export_valid val)"
  using assms
  by (cases val)
     (auto simp: validationErrCode_def bindE_def Let_def load_export_valid_def required_ok_def
        optional_ok_def split: option.splits)

lemma resolved_status:
  assumes "val \<noteq> Undefined" and "val \<noteq> Null"
  shows "fst (toLoadPromise_resolved val app) = None \<and>
         status (snd (toLoadPromise_resolved val app)) =
           (if load_export_valid val then NOT_BOOTSTRAPPED else SKIP_BECAUSE_BROKEN)"
proof -
  from validationErrCode_iff[OF assms] obtain c where
    c: "validationErrCode val = Inr c" "c = None \<longleftrightarrow> load_export_valid val" by blast
  show ?thesis
  proof (cases c)
    case None
    with c have "typeof val = ''object''" by (simp add: load_export_valid_def)
    with assms have "(\<exists>ps. val = JObj ps) \<or> (\<exists>xs. val = JArr xs)" by (cases val) auto
    with c None show ?thesis
      by (auto simp: toLoadPromise_resolved_def Let_def bindE_def getProp_truthy
               split: sum.splits if_splits js_val.splits option.splits)
  next
    case (Some code)
    with c show ?thesis
      by (auto simp: toLoadPromise_resolved_def Let_def handleAppError_def)
  qed
qed

lemma toLoadPromise_fulfils: "fst (toLoadPromise p now r app) = FulfilledWithRecord"
  by (auto simp: toLoadPromise_def split: prod.splits enter_result.splits sum.splits
        promise_outcome.splits option.splits)

lemma toLoadPromise_noop:
  "status app \<noteq> NOT_LOADED \<Longrightarrow> status app \<noteq> LOAD_ERROR \<Longrightarrow>
   toLoadPromise p now r app = (FulfilledWithRecord, app)"
  by (auto simp: toLoadPromise_def toLoadPromise_enter_def split: option.splits)

lemma toLoadPromise_resolves_eq:
  assumes "loadPromise app = None" and "status app = NOT_LOADED \<or> status app = LOAD_ERROR"
    and "fst (toLoadPromise_resolved val (app\<lparr>status := LOADING_SOURCE_CODE, loadPromise := Some p\<rparr>)) = None"
  shows "snd (toLoadPromise p now (ReturnsPromise (Resolves val)) app) =
         snd (toLoadPromise_resolved val (app\<lparr>status := LOADING_SOURCE_CODE, loadPromise := Some p\<rparr>))"
  using assms
  by (auto simp: toLoadPromise_def toLoadPromise_enter_def split: prod.splits option.splits)

text \<open>
  C6, as the code has it. When the loading function of a record that can be loaded resolves
  with a value other than \<open>undefined\<close> and \<open>null\<close>, the value is validated: it must be
  an object whose \<open>mount\<close> and \<open>unmount\<close> are both valid lifecycle functions, and
  \<open>bootstrap\<close> is validated only if present. The record becomes \<open>NOT_BOOTSTRAPPED\<close> when
  the value passes and \<open>SKIP_BECAUSE_BROKEN\<close> when it fails; in both cases the promise of
  \<open>toLoadPromise\<close> fulfils with the record, and a broken record stays as it is under every
  later call of \<open>toLoadPromise\<close>, whatever the loading function would do.
\<close>

theorem load_validation:
  assumes "loadPromise app = None" and "status app = NOT_LOADED \<or> status app = LOAD_ERROR"
    and "val \<noteq> Undefined" and "val \<noteq> Null"
  shows "fst (toLoadPromise p now (ReturnsPromise (Resolves val)) app) = FulfilledWithRecord \<and>
         status (snd (toLoadPromise p now (ReturnsPromise (Resolves val)) app)) =
           (if load_export_valid val then NOT_BOOTSTRAPPED else SKIP_BECAUSE_BROKEN) \<and>
         (\<not> load_export_valid val \<longrightarrow>
            (\<forall>q later r.
               toLoadPromise q later r (snd (toLoadPromise p now (ReturnsPromise (Resolves val)) app)) =
               (FulfilledWithRecord, snd (toLoadPromise p now (ReturnsPromise (Resolves val)) app))))"
proof -
  let ?a1 = "app\<lparr>status := LOADING_SOURCE_CODE, loadPromise := Some p\<rparr>"
  let ?res = "snd (toLoadPromise p now (ReturnsPromise (Resolves val)) app)"
  have r: "fst (toLoadPromise_resolved val ?a1) = None"
    "status (snd (toLoadPromise_resolved val ?a1)) =
       (if load_export_valid val then NOT_BOOTSTRAPPED else SKIP_BECAUSE_BROKEN)"
    using resolved_status[OF assms(3,4), of ?a1] by simp_all
  have eq: "?res = snd (toLoadPromise_resolved val ?a1)"
    by (rule toLoadPromise_resolves_eq[OF assms(1,2) r(1)])
  have st: "status ?res = (if load_export_valid val then NOT_BOOTSTRAPPED else SKIP_BECAUSE_BROKEN)"
    using eq r(2) by simp
  have "\<not> load_export_valid val \<longrightarrow>
        (\<forall>q later r. toLoadPromise q later r ?res = (FulfilledWithRecord, ?res))"
    using st by (auto intro!: toLoadPromise_noop)
  with st show ?thesis by (simp add: toLoadPromise_fulfils)
qed

text \<open>
  The theorem at two load results: an object whose \<open>bootstrap\<close> is a number is broken, and
  stays broken when loaded again; an object with \<open>mount\<close> and \<open>unmount\<close> is accepted.
\<close>

theorem load_validation_witness:
  "status (snd (toLoadPromise 0 1000
      (ReturnsPromise (Resolves (JObj [(''bootstrap'', JNum 1), (''mount'', JFun 1), (''unmount'', JFun 2)])))
      (newApp ''navbar''))) = SKIP_BECAUSE_BROKEN \<and>
   toLoadPromise 1 2000 (ReturnsPromise (Resolves (JObj [(''mount'', JFun 1), (''unmount'', JFun 2)])))
     (snd (toLoadPromise 0 1000
        (ReturnsPromise (Resolves (JObj [(''bootstrap'', JNum 1), (''mount'', JFun 1), (''unmount'', JFun 2)])))
        (newApp ''navbar''))) =
     (FulfilledWithRecord, snd (toLoadPromise 0 1000
        (ReturnsPromise (Resolves (JObj [(''bootstrap'', JNum 1), (''mount'', JFun 1), (''unmount'', JFun 2)])))
        (newApp ''navbar''))) \<and>
   status (snd (toLoadPromise 0 1000
      (ReturnsPromise (Resolves (JObj [(''mount'', JFun 1), (''unmount'', JFun 2)])))
      (newApp ''navbar''))) = NOT_BOOTSTRAPPED"
  using load_validation[of "newApp ''navbar''"
      "JObj [(''bootstrap'', JNum 1), (''mount'', JFun 1), (''unmount'', JFun 2)]" 0 1000]
    load_validation[of "newApp ''navbar''" "JObj [(''mount'', JFun 1), (''unmount'', JFun 2)]" 0 1000]
  by (simp add: newApp_def load_export_valid_def required_ok_def optional_ok_def)

text \<open>
  C6 as stated fails: a load result with a valid \<open>mount\<close> and no \<open>unmount\<close> passes the
  validation the claim describes (\<open>unmount\<close> looked at only if present), and the record
  is marked \<open>SKIP_BECAUSE_BROKEN\<close> all the same, because line 124 validates \<open>unmount\<close>
  whether it is present or not.
\<close>

theorem load_validation_unmount_counterexample:
  "claimed_valid (JObj [(''mount'', JFun 1)]) \<and>
   status (snd (toLoadPromise 0 1000 (ReturnsPromise (Resolves (JObj [(''mount'', JFun 1)])))
     (newApp ''navbar''))) = SKIP_BECAUSE_BROKEN"
  by (simp add: claimed_valid_def required_ok_def optional_ok_def toLoadPromise_def
      toLoadPromise_enter_def newApp_def toLoadPromise_resolved_def validationErrCode_def
      bindE_def handleAppError_def)

subsection \<open>Load failures\<close>

text \<open>
  C7. For a record that can be loaded: when the loading function returns a promise that
  rejects, the record ends with status \<open>LOAD_ERROR\<close>, the time of the failure in
  \<open>loadErrorTime\<close> and no stored load promise, so that the next call of \<open>toLoadPromise\<close>
  starts a new load; when the loading function returns something that is not a promise,
  the record ends \<open>SKIP_BECAUSE_BROKEN\<close>, \<open>loadErrorTime\<close> is left as it was, and the
  next call returns the record without loading.
\<close>

theorem load_failure_statuses:
  assumes "loadPromise app = None" and "status app = NOT_LOADED \<or> status app = LOAD_ERROR"
  shows "toLoadPromise p now (ReturnsPromise (Rejects err)) app =
           (FulfilledWithRecord,
            app\<lparr>status := LOAD_ERROR, loadPromise := None, loadErrorTime := Some now\<rparr>) \<and>
         fst (toLoadPromise_enter q (snd (toLoadPromise p now (ReturnsPromise (Rejects err)) app)))
           = StartedLoad q \<and>
         toLoadPromise p now (ReturnsNonPromise v) app =
           (FulfilledWithRecord, app\<lparr>status := SKIP_BECAUSE_BROKEN, loadPromise := None\<rparr>) \<and>
         loadErrorTime (snd (toLoadPromise p now (ReturnsNonPromise v) app)) = loadErrorTime app \<and>
         fst (toLoadPromise_enter q (snd (toLoadPromise p now (ReturnsNonPromise v) app)))
           = ReturnRecord"
  using assms
  by (auto simp: toLoadPromise_def toLoadPromise_enter_def toLoadPromise_catch_def handleAppError_def)

theorem load_failure_statuses_witness:
  "toLoadPromise 0 1000 (ReturnsPromise (Rejects (JStr ''network''))) (newApp ''navbar'') =
     (FulfilledWithRecord,
      (newApp ''navbar'')\<lparr>status := LOAD_ERROR, loadPromise := None, loadErrorTime := Some 1000\<rparr>) \<and>
   toLoadPromise 0 1000 (ReturnsNonPromise (JNum 5)) (newApp ''navbar'') =
     (FulfilledWithRecord, (newApp ''navbar'')\<lparr>status := SKIP_BECAUSE_BROKEN, loadPromise := None\<rparr>) \<and>
   loadErrorTime (snd (toLoadPromise 0 1000 (ReturnsNonPromise (JNum 5)) (newApp ''navbar''))) = None"
  using load_failure_statuses[of "newApp ''navbar''" 0 1000 "JStr ''network''" 1 "JNum 5"]
  by (simp add: newApp_def)

text \<open>
  C9 at the load result \<open>{}\<close>, an object without lifecycle functions: the promise fulfils
  with the record and the record is \<open>SKIP_BECAUSE_BROKEN\<close>, but the record still stores
  the load promise. The validation branch returns at line 163 without the
  \<open>delete appOrParcel.loadPromise\<close> that the success branch (line 190) and the \<open>catch\<close>
  callback (line 212) both run.
\<close>

theorem load_invalid_export_keeps_loadPromise:
  "toLoadPromise 0 1000 (ReturnsPromise (Resolves (JObj []))) (newApp ''navbar'') =
     (FulfilledWithRecord, (newApp ''navbar'')\<lparr>status := SKIP_BECAUSE_BROKEN, loadPromise := Some 0\<rparr>)"
  by (simp add: toLoadPromise_def toLoadPromise_enter_def newApp_def toLoadPromise_resolved_def
      validationErrCode_def bindE_def handleAppError_def)

subsection \<open>Overlapping loads\<close>

lemma load_inv_init: "load_inv (load_init app)"
  by (simp add: load_inv_def load_init_def)

lemma filter_update_count:
  "p < length xs \<Longrightarrow>
   length (filter P (xs[p := y])) + (if P (xs ! p) then 1 else 0) =
   length (filter P xs) + (if P y then 1 else 0)"
proof (induction xs arbitrary: p)
  case Nil
  then show ?case by simp
next
  case (Cons x xs)
  then show ?case by (cases p) auto
qed

lemma enter_cases:
  "toLoadPromise_enter p app = (r, app') \<Longrightarrow>
   (\<exists>q. loadPromise app = Some q \<and> r = JoinLoadPromise q \<and> app' = app) \<or>
   (loadPromise app = None \<and> status app \<noteq> NOT_LOADED \<and> status app \<noteq> LOAD_ERROR \<and>
      r = ReturnRecord \<and> app' = app) \<or>
   (loadPromise app = None \<and> (status app = NOT_LOADED \<or> status app = LOAD_ERROR) \<and>
      r = StartedLoad p \<and> app' = app\<lparr>status := LOADING_SOURCE_CODE, loadPromise := Some p\<rparr>)"
  by (auto simp: toLoadPromise_enter_def split: option.splits if_splits)

lemma resolved_loadPromise:
  "toLoadPromise_resolved v app = (Some e, app') \<Longrightarrow> loadPromise app' = loadPromise app"
  by (auto simp: toLoadPromise_resolved_def Let_def handleAppError_def
      split: sum.splits option.splits if_splits)

lemma load_inv_unique:
  "load_inv s \<Longrightarrow> p < length (loadChains s) \<Longrightarrow> loadChains s ! p \<noteq> Settled \<Longrightarrow>
   q < length (loadChains s) \<Longrightarrow> loadChains s ! q \<noteq> Settled \<Longrightarrow> p = q"
  unfolding load_inv_def by (metis option.inject)

lemma load_inv_update:
  assumes inv: "load_inv s" and p: "p < length (loadChains s)"
    and ns: "loadChains s ! p \<noteq> Settled"
    and keep: "c \<noteq> Settled \<longrightarrow> loadPromise app' = Some p"
    and cnt: "n + (if loadChains s ! p \<noteq> Created then 1 else 0) =
              loadAppCalls s + (if c \<noteq> Created then 1 else 0)"
  shows "load_inv (s\<lparr>theApp := app', loadChains := (loadChains s)[p := c], loadAppCalls := n\<rparr>)"
proof -
  have other: "\<And>q. q < length (loadChains s) \<Longrightarrow> q \<noteq> p \<Longrightarrow> loadChains s ! q = Settled"
    using load_inv_unique[OF inv p ns] by blast
  have "length (filter (\<lambda>c. c \<noteq> Created) ((loadChains s)[p := c])) +
          (if loadChains s ! p \<noteq> Created then 1 else 0)
      = loadAppCalls s + (if c \<noteq> Created then 1 else 0)"
    using filter_update_count[OF p, of "\<lambda>c. c \<noteq> Created" c] inv by (simp add: load_inv_def)
  with cnt have "n = length (filter (\<lambda>c. c \<noteq> Created) ((loadChains s)[p := c]))" by arith
  with other keep p show ?thesis
    by (auto simp: load_inv_def nth_list_update)
qed

lemma load_inv_step:
  assumes "load_inv s" and "load_step l s = Some s'"
  shows "load_inv s'"
proof (cases l)
  case Call
  obtain r app' where e: "toLoadPromise_enter (length (loadChains s)) (theApp s) = (r, app')"
    by (cases "toLoadPromise_enter (length (loadChains s)) (theApp s)")
  from enter_cases[OF e] assms Call e show ?thesis
    by (auto simp: load_inv_def nth_append less_Suc_eq split: enter_result.splits)
next
  case (Invoke p r)
  with assms have p: "p < length (loadChains s)" and c: "loadChains s ! p = Created"
    by (auto split: if_splits)
  define c' where
    "c' = (case toLoadPromise_invoke r of Inl u \<Rightarrow> Throwing u | Inr out \<Rightarrow> AwaitingLoad out)"
  have c'ne: "c' \<noteq> Created" "c' \<noteq> Settled" by (auto simp: c'_def split: sum.splits)
  have lp: "loadPromise (theApp s) = Some p" using assms(1) p c by (auto simp: load_inv_def)
  have "load_inv (s\<lparr>theApp := theApp s, loadChains := (loadChains s)[p := c'],
                    loadAppCalls := Suc (loadAppCalls s)\<rparr>)"
    by (rule load_inv_update[OF assms(1) p]) (use c c'ne lp in auto)
  moreover have "s' = s\<lparr>theApp := theApp s, loadChains := (loadChains s)[p := c'],
                        loadAppCalls := Suc (loadAppCalls s)\<rparr>"
    using assms(2) Invoke p c by (cases s) (auto simp: c'_def)
  ultimately show ?thesis by simp
next
  case (Settle p)
  with assms have p: "p < length (loadChains s)" by (auto split: if_splits)
  from assms(2) Settle p obtain out where c: "loadChains s ! p = AwaitingLoad out"
    by (auto split: chain.splits)
  have lp: "loadPromise (theApp s) = Some p" using assms(1) p c by (auto simp: load_inv_def)
  from assms(2) Settle p c obtain app' c' where
    s': "s' = s\<lparr>theApp := app', loadChains := (loadChains s)[p := c'],
                 loadAppCalls := loadAppCalls s\<rparr>"
    and c': "c' = Settled \<or> (c' = Throwing False \<and> loadPromise app' = Some p)"
    using lp
    by (cases out; cases s) (auto split: option.splits prod.splits dest: resolved_loadPromise)
  have "load_inv (s\<lparr>theApp := app', loadChains := (loadChains s)[p := c'],
                    loadAppCalls := loadAppCalls s\<rparr>)"
    by (rule load_inv_update[OF assms(1) p]) (use c c' in auto)
  with s' show ?thesis by simp
next
  case (Catch p now)
  with assms have p: "p < length (loadChains s)" by (auto split: if_splits)
  from assms(2) Catch p obtain u where c: "loadChains s ! p = Throwing u"
    by (auto split: chain.splits)
  have "load_inv (s\<lparr>theApp := toLoadPromise_catch u now (theApp s),
                    loadChains := (loadChains s)[p := Settled], loadAppCalls := loadAppCalls s\<rparr>)"
    by (rule load_inv_update[OF assms(1) p]) (use c in auto)
  moreover have "s' = s\<lparr>theApp := toLoadPromise_catch u now (theApp s),
                        loadChains := (loadChains s)[p := Settled], loadAppCalls := loadAppCalls s\<rparr>"
    using assms(2) Catch p c by (cases s) auto
  ultimately show ?thesis by simp
qed

lemma load_inv_run:
  "load_inv s \<Longrightarrow> load_run ls s = Some s' \<Longrightarrow> load_inv s'"
  by (induction ls arbitrary: s) (auto split: option.splits dest: load_inv_step)

lemma in_flight_le_1:
  assumes "load_inv s"
  shows "length (in_flight s) \<le> 1"
proof -
  have d: "distinct (in_flight s)" by (simp add: in_flight_def)
  have "\<And>p q. p \<in> set (in_flight s) \<Longrightarrow> q \<in> set (in_flight s) \<Longrightarrow> p = q"
    using load_inv_unique[OF assms] by (auto simp: in_flight_def)
  then have "set (in_flight s) \<subseteq> {hd (in_flight s)}"
    by (cases "in_flight s") auto
  then have "card (set (in_flight s)) \<le> card {hd (in_flight s)}"
    by (intro card_mono) auto
  with d show ?thesis by (simp add: distinct_card)
qed

lemma filter_split_count:
  "length (filter (\<lambda>c. c \<noteq> Created) xs) \<le>
   length (filter (\<lambda>c. c = Settled) xs) + length (filter (\<lambda>c. c \<noteq> Settled) xs)"
  by (induction xs) auto

lemma filter_index_count:
  "length (filter (\<lambda>i. P (xs ! i)) [0 ..< length xs]) = length (filter P xs)"
proof (induction xs rule: rev_induct)
  case Nil
  then show ?case by simp
next
  case (snoc x xs)
  have "filter (\<lambda>i. P ((xs @ [x]) ! i)) [0 ..< length xs] =
        filter (\<lambda>i. P (xs ! i)) [0 ..< length xs]"
    by (rule filter_cong) (auto simp: nth_append)
  with snoc show ?case by simp
qed

lemma unsettled_eq_in_flight:
  "length (filter (\<lambda>c. c \<noteq> Settled) (loadChains s)) = length (in_flight s)"
  unfolding in_flight_def by (rule filter_index_count[symmetric])

lemma calls_bound:
  assumes "load_inv s"
  shows "loadAppCalls s \<le> settled_loads s + 1"
  using filter_split_count[of "loadChains s"] in_flight_le_1[OF assms] assms
  by (simp add: unsettled_eq_in_flight settled_loads_def load_inv_def)

lemma join_in_flight:
  assumes "load_inv s" and "p \<in> set (in_flight s)"
  shows "load_run (replicate n Call) s =
         Some (s\<lparr>returned := returned s @ replicate n (JoinLoadPromise p)\<rparr>)"
proof -
  have lp: "loadPromise (theApp s) = Some p"
    using assms by (auto simp: in_flight_def load_inv_def)
  have "\<And>rs. load_run (replicate n Call) (s\<lparr>returned := rs\<rparr>) =
     Some (s\<lparr>returned := rs @ replicate n (JoinLoadPromise p)\<rparr>)"
  proof (induction n)
    case 0
    then show ?case by simp
  next
    case (Suc n)
    show ?case using lp Suc[of "rs @ [JoinLoadPromise p]"]
      by (simp add: toLoadPromise_enter_def replicate_app_Cons_same)
  qed
  from this[of "returned s"] show ?thesis by simp
qed

text \<open>
  C8. Whatever calls of \<open>toLoadPromise\<close> on one record overlap, and however their callbacks
  interleave, at most one load is in flight at any moment, and the loading function has
  run at most once more than the number of loads that have settled. While a load is in
  flight, any number of further calls all return the stored load promise and change
  nothing else, so they settle with the same record. A call on a record whose status is
  neither \<open>NOT_LOADED\<close> nor \<open>LOAD_ERROR\<close> fulfils with the record unchanged, without
  asking the loading function.
\<close>

theorem load_deduplicated:
  assumes "load_run ls (load_init app) = Some s"
  shows "length (in_flight s) \<le> 1 \<and>
         loadAppCalls s \<le> settled_loads s + 1 \<and>
         (\<forall>p n. p \<in> set (in_flight s) \<longrightarrow>
            load_run (replicate n Call) s =
              Some (s\<lparr>returned := returned s @ replicate n (JoinLoadPromise p)\<rparr>)) \<and>
         (\<forall>rec p now r. status rec \<noteq> NOT_LOADED \<and> status rec \<noteq> LOAD_ERROR \<longrightarrow>
            toLoadPromise p now r rec = (FulfilledWithRecord, rec))"
proof -
  have inv: "load_inv s" using load_inv_run[OF load_inv_init assms] .
  show ?thesis
    using in_flight_le_1[OF inv] calls_bound[OF inv] join_in_flight[OF inv] toLoadPromise_noop
    by blast
qed

lemma dedup_run_state: "load_run dedup_run (load_init (newApp ''navbar'')) = Some dedup_state"
  by (simp add: dedup_run_def dedup_state_def load_init_def newApp_def toLoadPromise_enter_def)

text \<open>
  The theorem on a run of three calls around one execution of the loading function: one
  load in flight, one execution, and three more calls that all join it.
\<close>

theorem load_deduplicated_witness:
  "load_run dedup_run (load_init (newApp ''navbar'')) = Some dedup_state \<and>
   in_flight dedup_state = [0] \<and>
   loadAppCalls dedup_state = 1 \<and>
   load_run [Call, Call, Call] dedup_state =
     Some (dedup_state\<lparr>returned := returned dedup_state @
             [JoinLoadPromise 0, JoinLoadPromise 0, JoinLoadPromise 0]\<rparr>) \<and>
   toLoadPromise 1 2000 LoadThrows ((newApp ''navbar'')\<lparr>status := MOUNTED\<rparr>) =
     (FulfilledWithRecord, (newApp ''navbar'')\<lparr>status := MOUNTED\<rparr>)"
proof -
  have fl: "in_flight dedup_state = [0]"
    by (simp add: in_flight_def dedup_state_def)
  from load_deduplicated[OF dedup_run_state] have
    a: "\<forall>p n. p \<in> set (in_flight dedup_state) \<longrightarrow>
            load_run (replicate n Call) dedup_state =
              Some (dedup_state\<lparr>returned := returned dedup_state @ replicate n (JoinLoadPromise p)\<rparr>)"
    and b: "\<forall>rec p now r. status rec \<noteq> NOT_LOADED \<and> status rec \<noteq> LOAD_ERROR \<longrightarrow>
            toLoadPromise p now r rec = (FulfilledWithRecord, rec)"
    by blast+
  have "load_run (replicate 3 Call) dedup_state =
      Some (dedup_state\<lparr>returned := returned dedup_state @ replicate 3 (JoinLoadPromise 0)\<rparr>)"
    using a fl by simp
  then have c: "load_run [Call, Call, Call] dedup_state =
     Some (dedup_state\<lparr>returned := returned dedup_state @
             [JoinLoadPromise 0, JoinLoadPromise 0, JoinLoadPromise 0]\<rparr>)"
    by (simp add: numeral_3_eq_3)
  have d: "toLoadPromise 1 2000 LoadThrows ((newApp ''navbar'')\<lparr>status := MOUNTED\<rparr>) =
     (FulfilledWithRecord, (newApp ''navbar'')\<lparr>status := MOUNTED\<rparr>)"
    using b by simp
  show ?thesis using dedup_run_state fl c d by (simp add: dedup_state_def)
qed

section \<open>Properties of the captured listeners\<close>

lemma find_js_None: "find_js xs (\<lambda>listener. listener = f) = None \<longleftrightarrow> f \<notin> set xs"
  by (auto simp: find_js_def find_None_iff)

lemma captured_distinct: "registry_distinct w \<Longrightarrow> distinct (captured k w)"
  by (simp add: registry_distinct_def captured_def)

lemma registry_distinct_add: "registry_distinct w \<Longrightarrow> registry_distinct (addEventListener k fn w)"
  by (cases fn)
     (auto simp: addEventListener_def registry_distinct_def set_captured_def captured_def
        find_js_None routingEventsListeningTo_def)

lemma registry_distinct_remove:
  "registry_distinct w \<Longrightarrow> registry_distinct (removeEventListener k fn w)"
  by (cases fn)
     (auto simp: removeEventListener_def registry_distinct_def set_captured_def captured_def Let_def)

lemma add_again_keeps_registry:
  "k \<in> set routingEventsListeningTo \<Longrightarrow>
   captured k' (addEventListener k (JFun f) (addEventListener k (JFun f) w)) =
   captured k' (addEventListener k (JFun f) w)"
  by (auto simp: addEventListener_def set_captured_def captured_def find_js_None
      routingEventsListeningTo_def)

lemma remove_removes_all:
  "k \<in> set routingEventsListeningTo \<Longrightarrow> f \<notin> set (captured k (removeEventListener k (JFun f) w))"
  by (auto simp: removeEventListener_def set_captured_def captured_def Let_def
      routingEventsListeningTo_def)

lemma distinct_filter_eq_one:
  "distinct xs \<Longrightarrow> f \<in> set xs \<Longrightarrow> length (filter (\<lambda>l. l = f) xs) = 1"
  by (induction xs) (auto simp: filter_empty_conv)

lemma replay_once:
  assumes "registry_distinct w" and "ev_type ev \<in> set routingEventsListeningTo"
    and "f \<in> set (captured (ev_type ev) w)"
  shows "length (filter (\<lambda>c. c = (f, ev)) (callCapturedEventListeners (Some ev) w)) = 1"
proof -
  have d: "distinct (captured (ev_type ev) w)" by (rule captured_distinct[OF assms(1)])
  have "filter (\<lambda>c. c = (f, ev)) (map (\<lambda>listener. (listener, ev)) xs) =
        map (\<lambda>listener. (listener, ev)) (filter (\<lambda>l. l = f) xs)" for xs
    by (induction xs) auto
  moreover have "length (filter (\<lambda>l. l = f) (captured (ev_type ev) w)) = 1"
    using d assms(3) by (rule distinct_filter_eq_one)
  ultimately show ?thesis using assms(2) by (simp add: callCapturedEventListeners_def)
qed

text \<open>
  C10 at the input "register the same function twice for popstate": the array of captured
  popstate listeners holds the function once, as the claim says, but the second
  registration is not without effect. It fails the test of line 192, so line 195 does not
  return, and line 199 hands the call to the original \<open>addEventListener\<close>: the function
  is now also a native popstate listener of the window, which the browser calls at once on
  every popstate event, outside the replay.
\<close>

theorem duplicate_listener_reaches_native:
  "addEventListener ''popstate'' (JFun 7) (addEventListener ''popstate'' (JFun 7) patched_window) =
     patched_window\<lparr>popstateListeners := [7],
       nativeAdded := [(''hashchange'', JFun 0), (''popstate'', JFun 0), (''popstate'', JFun 7)]\<rparr> \<and>
   addEventListener ''popstate'' (JFun 7) patched_window =
     patched_window\<lparr>popstateListeners := [7]\<rparr>"
  by (simp add: addEventListener_def patched_window_def patchHistoryApi_def captured_def set_captured_def
      find_js_def routingEventsListeningTo_def)

section \<open>Properties of the reroute cycle\<close>

subsection \<open>What one callback does\<close>

lemmas handler_defs =
  performAppChanges_start_def performAppChanges_afterCancel_def unmount_settled_def
  unmountAll_settles_def beforeMountRoutingEvent_def chain_settled_def unmountAll_reaction_def
  performAppChanges_afterUnmountAll_def performAppChanges_afterMounts_def loadApps_start_def
  load_settled_def loadApps_afterLoads_def

lemma list_all_update_uu:
  "list_all P (xs[i := y]) \<Longrightarrow> i < length xs \<Longrightarrow> P y"
  by (metis length_list_update list_all_length nth_list_update_eq)

lemma fire_obs_ok: "list_all (obs_ok E cid c href) (fireSingleSpaEvent cid c n)"
  by (simp add: fireSingleSpaEvent_def)

lemma callAll_silent [simp]:
  "silentNavigation c \<Longrightarrow> callAllEventListeners cid c patched script w = ([], w)"
  by (simp add: callAllEventListeners_def)

lemma callAll_releases [simp]:
  "\<not> silentNavigation c \<Longrightarrow>
   length (filter is_release (fst (callAllEventListeners cid c patched script w))) = Suc 0"
  by (simp add: callAllEventListeners_def filter_map comp_def split_def Let_def)

lemma released_eq:
  "released cid c p script s =
   upd_cycle cid (c\<lparr>pc := p\<rparr>) (fst (callAllEventListeners cid c (started s) script (window s)))
     (s\<lparr>window := snd (callAllEventListeners cid c (started s) script (window s))\<rparr>)"
  by (simp add: released_def split_def Let_def)

lemma fire_releases [simp]: "filter is_release (fireSingleSpaEvent cid c n) = []"
  by (simp add: fireSingleSpaEvent_def)

lemma list_all_True [simp]: "list_all (\<lambda>x. True) xs"
  by (simp add: list_all_iff)

lemma fire_no_lifecycle [simp]:
  "list_all (\<lambda>ob. is_lifecycle_call ob \<longrightarrow> P) (fireSingleSpaEvent cid c n)"
  by (simp add: fireSingleSpaEvent_def)

lemma callAll_no_lifecycle [simp]:
  "list_all (\<lambda>ob. is_lifecycle_call ob \<longrightarrow> P) (fst (callAllEventListeners cid c patched script w))"
  by (auto simp: callAllEventListeners_def list_all_iff split_def Let_def)

lemma fire_not_lifecycle [simp]:
  "list_all (\<lambda>ob. \<not> is_lifecycle_call ob) (fireSingleSpaEvent cid c n)"
  by (simp add: fireSingleSpaEvent_def)

lemma callAll_not_lifecycle [simp]:
  "list_all (\<lambda>ob. \<not> is_lifecycle_call ob) (fst (callAllEventListeners cid c patched script w))"
  by (auto simp: callAllEventListeners_def list_all_iff split_def Let_def)

lemma callAll_obs_ok:
  "pc c = AwaitUnmountAll \<and> unmountAllPromise c \<noteq> Pending \<or>
   pc c = LoadAwait \<and>
   (list_ex (\<lambda>p. p = Rejected) (loadPromises c) \<or> list_all (\<lambda>p. p = Fulfilled) (loadPromises c)) \<Longrightarrow>
   list_all (obs_ok E cid c href) (fst (callAllEventListeners cid c patched script w))"
  by (auto simp: callAllEventListeners_def list_all_iff split_def Let_def)

lemma replaceState_url_origin:
  "replaceState_url org ref = Some (Replaces href) \<Longrightarrow> take (length org) href = org"
  by (auto simp: replaceState_url_def Let_def split: if_splits option.splits)

lemma set_chain_closure [simp]: "same_closure c (set_chain k i t c)"
  by (cases k) (simp_all add: set_chain_def same_closure_def)

lemma set_chain_fields [simp]:
  "pc (set_chain k i t c) = pc c"
  "allUnmountPromises (set_chain k i t c) = allUnmountPromises c"
  "unmountAllPromise (set_chain k i t c) = unmountAllPromise c"
  "silentNavigation (set_chain k i t c) = silentNavigation c"
  "appsToUnmount (set_chain k i t c) = appsToUnmount c"
  "appsToUnload (set_chain k i t c) = appsToUnload c"
  by (cases k; simp add: set_chain_def)+

lemma set_chain_lists:
  "loadThenMountPromises (set_chain k i t c) @ mountPromises (set_chain k i t c) =
   (case k of
      LoadThenMount \<Rightarrow> (loadThenMountPromises c)[i := t] @ mountPromises c
    | PlainMount \<Rightarrow> loadThenMountPromises c @ (mountPromises c)[i := t])"
  "loadThenMountPromises (set_chain k i t c) = [] \<longleftrightarrow> loadThenMountPromises c = []"
  "mountPromises (set_chain k i t c) = [] \<longleftrightarrow> mountPromises c = []"
  by (cases k; simp add: set_chain_def)+

lemma chains_concat:
  "list_all P (loadThenMountPromises c @ mountPromises c) \<Longrightarrow> i < length (chains_of k c) \<Longrightarrow>
   P (chains_of k c ! i)"
  by (cases k) (auto simp: chains_of_def list_all_iff)

lemma chain_pending_launched:
  assumes "promises_ok c" and "i < length (chains_of k c)" and "chains_of k c ! i \<noteq> ChainFulfilled"
  shows "launched c \<and> pc c \<noteq> Finished"
proof -
  have "chains_of k c \<noteq> []" using assms(2) by auto
  then have l: "launched c" using assms(1) by (cases k) (auto simp: promises_ok_def chains_of_def)
  have "pc c \<noteq> Finished"
  proof
    assume "pc c = Finished"
    with assms(1) have "list_all (\<lambda>t. t = ChainFulfilled) (loadThenMountPromises c @ mountPromises c)"
      by (simp add: promises_ok_def)
    from chains_concat[OF this assms(2)] assms(3) show False by simp
  qed
  with l show ?thesis by simp
qed

lemma set_chain_launched [simp]: "launched (set_chain k i t c) = launched c"
  by (simp add: launched_def)

lemma set_chain_underway [simp]: "underway (set_chain k i t c) = underway c"
  by (simp add: underway_def)

lemma set_chain_released [simp]: "has_released (set_chain k i t c) = has_released c"
  by (simp add: has_released_def)

lemma promises_ok_set_chain:
  assumes "promises_ok c" and "i < length (chains_of k c)" and "chains_of k c ! i \<noteq> ChainFulfilled"
  shows "promises_ok (set_chain k i t c)"
proof -
  from chain_pending_launched[OF assms] have l: "launched c" and nf: "pc c \<noteq> Finished" by simp_all
  show ?thesis
    using assms(1) l nf
    by (simp add: promises_ok_def unmounts_fulfilled_def)
qed

lemma lifecycle_from_pending_chain:
  assumes "promises_ok c" and "i < length (chains_of k c)" and "chains_of k c ! i \<noteq> ChainFulfilled"
  shows "list_all (\<lambda>ob. is_lifecycle_call ob \<longrightarrow> underway c \<or> pc c = LoadScheduled \<and> is_load_call ob) tr"
proof -
  from chain_pending_launched[OF assms] have "underway c"
    by (auto simp: launched_def underway_def)
  then show ?thesis by (simp add: list_all_iff)
qed

lemma chain_settled_shape:
  assumes "chain_settled E k i ok cid c s = Some s'"
  obtains t tr where "s' = upd_cycle cid (set_chain k i t c) tr s" and "i < length (chains_of k c)"
    and "chains_of k c ! i \<noteq> ChainFulfilled" and "list_all (obs_ok E cid c (location s)) tr"
    and "filter is_release tr = []"
  using assms
  by (auto simp: chain_settled_def tryToBootstrapAndMount_def split: if_splits tbm.splits)

lemma unmountAll_reaction_shape:
  assumes "unmountAll_reaction E k i cid c s = Some s'"
  obtains t tr where "s' = upd_cycle cid (set_chain k i t c) tr s" and "i < length (chains_of k c)"
    and "chains_of k c ! i \<noteq> ChainFulfilled" and "list_all (obs_ok E cid c (location s)) tr"
    and "filter is_release tr = []"
  using assms
  by (auto simp: unmountAll_reaction_def split: if_splits tbm.splits pstate.splits)

lemma cycle_step_cases:
  assumes "cycle_step E l cid c s = Some s'"
  obtains
    (Local) c' tr w where "s' = upd_cycle cid c' tr (s\<lparr>window := w\<rparr>)" and "same_closure c c'"
      and "underway c' \<longleftrightarrow> underway c" and "promises_ok c \<Longrightarrow> promises_ok c'"
      and "promises_ok c \<Longrightarrow>
           list_all (\<lambda>ob. is_lifecycle_call ob \<longrightarrow> underway c \<or> pc c = LoadScheduled \<and> is_load_call ob) tr"
      and "list_all (obs_ok E cid c (location s)) tr"
      and "length (filter is_release tr) + (if has_released c then 1 else 0) =
           (if has_released c' then 1 else 0)"
  | (Cancel) href where "pc c = AwaitCancel" and "list_ex truthy (cancelPromises c)"
      and "take (length (origin s)) href = origin s" and "s' = navigationCanceled cid c href s"
  | (Finish) "l = AfterMounts" and "pc c = AwaitMounts"
      and "list_all (\<lambda>t. t = ChainFulfilled) (loadThenMountPromises c @ mountPromises c)"
      and "s' = finishUpAndReturn cid c s"
proof -
  have Same: thesis
    if "s' = upd_cycle cid c' tr s" and "same_closure c c'"
      and "underway c' \<longleftrightarrow> underway c" and "promises_ok c \<Longrightarrow> promises_ok c'"
      and "promises_ok c \<Longrightarrow>
           list_all (\<lambda>ob. is_lifecycle_call ob \<longrightarrow> underway c \<or> pc c = LoadScheduled \<and> is_load_call ob) tr"
      and "list_all (obs_ok E cid c (location s)) tr"
      and "length (filter is_release tr) + (if has_released c then 1 else 0) =
           (if has_released c' then 1 else 0)"
    for c' tr
    using that Local[of c' tr "window s"] by simp
  have Throws: thesis
    if "pc c = AwaitCancel" and "s' = replaceStateThrows cid c s"
    using that
    by (intro Same[of "c\<lparr>pc := CancelFailed\<rparr>" "[ReplacedState cid (drop (length (origin s)) (oldUrl c))]"])
       (auto simp: replaceStateThrows_def same_closure_def underway_def promises_ok_def
          unmounts_fulfilled_def has_released_def launched_def)
  show ?thesis
  proof (cases l)
  case (Perform inputs)
  with assms show ?thesis
    apply (simp add: performAppChanges_start_def split: if_splits)
    by (erule Same[OF sym]; auto simp: same_closure_def underway_def promises_ok_def
          unmounts_fulfilled_def has_released_def launched_def fire_obs_ok split: if_splits)+
next
  case CancelsSettled
  show ?thesis
  proof (cases "list_ex truthy (cancelPromises c)")
    case True
    with assms CancelsSettled obtain answer where pc: "pc c = AwaitCancel"
      and a: "replaceState_url (origin s) (drop (length (origin s)) (oldUrl c)) = Some answer"
      and s': "s' = cancelWith answer cid c s"
      by (auto simp: performAppChanges_afterCancel_def split: if_splits)
    show ?thesis
    proof (cases answer)
      case (Replaces href)
      with pc a s' True replaceState_url_origin[of "origin s" _ href] show ?thesis
        by (intro Cancel[of href]) (simp_all add: cancelWith_def)
    next
      case ThrowsSecurityError
      with pc s' show ?thesis by (intro Throws) (simp_all add: cancelWith_def)
    qed
  next
    case False
    with assms CancelsSettled show ?thesis
      apply (simp add: performAppChanges_afterCancel_def Let_def split: if_splits)
      by (erule Same[OF sym]; auto simp: same_closure_def underway_def promises_ok_def
          unmounts_fulfilled_def has_released_def launched_def list_all_iff tryToBootstrapAndMount_def split: if_splits)+
  qed
next
  case (CancelsSettledWith answer)
  with assms have pc: "pc c = AwaitCancel" and t: "list_ex truthy (cancelPromises c)"
    and s': "s' = cancelWith answer cid c s"
    and o: "case answer of Replaces href \<Rightarrow> take (length (origin s)) href = origin s
            | ThrowsSecurityError \<Rightarrow> True"
    by (auto simp: performAppChanges_cancelAnswered_def split: if_splits)
  show ?thesis
  proof (cases answer)
    case (Replaces href)
    with pc t s' o show ?thesis
      by (intro Cancel[of href]) (simp_all add: cancelWith_def)
  next
    case ThrowsSecurityError
    with pc s' show ?thesis by (intro Throws) (simp_all add: cancelWith_def)
  qed
next
  case (UnmountSettles i ok)
  with assms show ?thesis
    apply (simp add: unmount_settled_def split: if_splits uu.splits)
    by (erule Same[OF sym]; auto simp: same_closure_def underway_def promises_ok_def
          unmounts_fulfilled_def has_released_def launched_def list_all_length nth_list_update split: if_splits)+
next
  case UnmountAllSettles
  with assms show ?thesis
    apply (simp add: unmountAll_settles_def split: if_splits)
    by (erule Same[OF sym]; auto simp: same_closure_def underway_def promises_ok_def
          unmounts_fulfilled_def has_released_def launched_def split: if_splits)+
next
  case BeforeMount
  with assms show ?thesis
    apply (simp add: beforeMountRoutingEvent_def split: if_splits)
    by (erule Same[OF sym]; auto simp: same_closure_def underway_def promises_ok_def
          unmounts_fulfilled_def has_released_def launched_def fire_obs_ok split: if_splits)
next
  case (ChainSettles k i ok)
  with assms have "chain_settled E k i ok cid c s = Some s'" by simp
  then show ?thesis
  proof (cases rule: chain_settled_shape)
    case (1 t tr)
    show ?thesis
    proof (rule Same[OF 1(1)])
      show "promises_ok c \<Longrightarrow> promises_ok (set_chain k i t c)"
        using 1(2,3) by (intro promises_ok_set_chain)
      show "promises_ok c \<Longrightarrow>
            list_all (\<lambda>ob. is_lifecycle_call ob \<longrightarrow> underway c \<or> pc c = LoadScheduled \<and> is_load_call ob) tr"
        using 1(2,3) by (intro lifecycle_from_pending_chain)
    qed (use 1 in simp_all)
  qed
next
  case (UnmountAllReaction k i)
  with assms have "unmountAll_reaction E k i cid c s = Some s'" by simp
  then show ?thesis
  proof (cases rule: unmountAll_reaction_shape)
    case (1 t tr)
    show ?thesis
    proof (rule Same[OF 1(1)])
      show "promises_ok c \<Longrightarrow> promises_ok (set_chain k i t c)"
        using 1(2,3) by (intro promises_ok_set_chain)
      show "promises_ok c \<Longrightarrow>
            list_all (\<lambda>ob. is_lifecycle_call ob \<longrightarrow> underway c \<or> pc c = LoadScheduled \<and> is_load_call ob) tr"
        using 1(2,3) by (intro lifecycle_from_pending_chain)
    qed (use 1 in simp_all)
  qed
next
  case (AfterUnmountAll script)
  with assms show ?thesis
    apply (simp add: performAppChanges_afterUnmountAll_def released_eq split: if_splits pstate.splits)
    by (erule Local[OF sym]; auto simp: same_closure_def underway_def promises_ok_def
          unmounts_fulfilled_def has_released_def launched_def callAll_obs_ok split: if_splits)+
next
  case AfterMounts
  show ?thesis
  proof (cases "list_ex (\<lambda>t. t = ChainRejected) (loadThenMountPromises c @ mountPromises c)")
    case True
    with assms AfterMounts show ?thesis
      apply (simp add: performAppChanges_afterMounts_def split: if_splits)
      by (erule Same[OF sym]; auto simp: same_closure_def underway_def promises_ok_def
          unmounts_fulfilled_def has_released_def launched_def list_all_iff split: if_splits)+
  next
    case False
    with assms AfterMounts show ?thesis
      by (intro Finish) (auto simp: performAppChanges_afterMounts_def split: if_splits)
  qed
next
  case LoadApps
  with assms show ?thesis
    apply (simp add: loadApps_start_def split: if_splits)
    by (erule Same[OF sym]; auto simp: same_closure_def underway_def promises_ok_def
          unmounts_fulfilled_def has_released_def launched_def list_all_iff split: if_splits)
next
  case (LoadSettles i ok)
  with assms show ?thesis
    apply (simp add: load_settled_def split: if_splits)
    by (erule Same[OF sym]; auto simp: same_closure_def underway_def promises_ok_def
          unmounts_fulfilled_def has_released_def launched_def split: if_splits)+
next
  case (AfterLoads script)
  with assms show ?thesis
    apply (simp add: loadApps_afterLoads_def released_eq split: if_splits)
    by (erule Local[OF sym]; auto simp: same_closure_def underway_def promises_ok_def
          unmounts_fulfilled_def has_released_def launched_def callAll_obs_ok split: if_splits)+
  qed
qed

subsection \<open>Fields after the basic operations\<close>

lemma upd_cycle_fields [simp]:
  "cycles (upd_cycle cid c tr s) = (cycles s)[cid := c]"
  "trace (upd_cycle cid c tr s) = trace s @ tr"
  "origin (upd_cycle cid c tr s) = origin s"
  "location (upd_cycle cid c tr s) = location s"
  "currentUrl (upd_cycle cid c tr s) = currentUrl s"
  "started (upd_cycle cid c tr s) = started s"
  "appChangeUnderway (upd_cycle cid c tr s) = appChangeUnderway s"
  "peopleWaitingOnAppChange (upd_cycle cid c tr s) = peopleWaitingOnAppChange s"
  "window (upd_cycle cid c tr s) = window s"
  "appChanges (upd_cycle cid c tr s) = appChanges s"
  "mountedApps (upd_cycle cid c tr s) = mountedApps s"
  "nextCaller (upd_cycle cid c tr s) = nextCaller s"
  by (simp_all add: upd_cycle_def)

lemma reroute_fields [simp]:
  "trace (reroute pp ev sil s) = trace s"
  "origin (reroute pp ev sil s) = origin s"
  "location (reroute pp ev sil s) = location s"
  "started (reroute pp ev sil s) = started s"
  "window (reroute pp ev sil s) = window s"
  "appChanges (reroute pp ev sil s) = appChanges s"
  "mountedApps (reroute pp ev sil s) = mountedApps s"
  by (simp_all add: reroute_def)

lemma reroute_cycles:
  "cycles (reroute pp ev sil s) =
     (if appChangeUnderway s then cycles s else cycles s @ [new_cycle pp ev sil s])"
  by (simp add: reroute_def)

lemma new_cycle_fields [simp]:
  "pendingPromises (new_cycle pp ev sil s) = pp"
  "eventArguments (new_cycle pp ev sil s) = ev"
  "silentNavigation (new_cycle pp ev sil s) = sil"
  "oldUrl (new_cycle pp ev sil s) = currentUrl s"
  "newUrl (new_cycle pp ev sil s) = location s"
  "pc (new_cycle pp ev sil s) = (if started s then Scheduled else LoadScheduled)"
  "unmountAllPromise (new_cycle pp ev sil s) = Pending"
  "allUnmountPromises (new_cycle pp ev sil s) = []"
  "loadThenMountPromises (new_cycle pp ev sil s) = []"
  "mountPromises (new_cycle pp ev sil s) = []"
  by (simp_all add: new_cycle_def Let_def)

lemma new_cycle_underway [simp]: "underway (new_cycle pp ev sil s) \<longleftrightarrow> started s"
  by (simp add: underway_def)

subsection \<open>The invariants under \<open>reroute\<close>\<close>

lemma url_inv_reroute: "url_inv s \<Longrightarrow> url_inv (reroute pp ev sil s)"
  by (simp add: url_inv_def reroute_def)

lemma flight_inv_reroute: "flight_inv s \<Longrightarrow> flight_inv (reroute pp ev sil s)"
  by (auto simp: flight_inv_def reroute_def)

lemma promises_inv_reroute: "promises_inv s \<Longrightarrow> promises_inv (reroute pp ev sil s)"
  by (simp add: promises_inv_def reroute_def promises_ok_def)

lemma trace_inv_reroute: "trace_inv s \<Longrightarrow> trace_inv (reroute pp ev sil s)"
  by (auto simp: trace_inv_def reroute_def list_all_iff nth_append)

subsection \<open>The invariants under the change of one cycle\<close>

lemma url_inv_upd:
  assumes "url_inv s" and "cid < length (cycles s)" and "oldUrl c' = oldUrl (cycles s ! cid)"
  shows "url_inv (upd_cycle cid c' tr s)"
  using assms by (auto simp: url_inv_def list_all_length nth_list_update)

lemma flight_inv_upd:
  assumes "flight_inv s" and "cid < length (cycles s)"
    and "underway c' \<longleftrightarrow> underway (cycles s ! cid)"
  shows "flight_inv (upd_cycle cid c' tr s)"
  using assms filter_update_count[of cid "cycles s" underway c']
  by (auto simp: flight_inv_def split: if_splits)

lemma promises_inv_upd:
  assumes "promises_inv s" and "promises_ok c'"
  shows "promises_inv (upd_cycle cid c' tr s)"
  using assms set_update_subset_insert[of "cycles s" cid c']
  by (auto simp: promises_inv_def list_all_iff)

lemma trace_inv_upd:
  assumes "trace_inv s" and "cid < length (cycles s)"
    and "silentNavigation c' = silentNavigation (cycles s ! cid)"
    and "list_all (\<lambda>ob. obs_cycle ob = cid \<and> (is_notification ob \<longrightarrow> \<not> silentNavigation c')) tr"
  shows "trace_inv (upd_cycle cid c' tr s)"
  using assms by (auto simp: trace_inv_def list_all_iff nth_list_update)

lemma obs_ok_tag:
  "obs_ok E cid c href ob \<Longrightarrow> obs_cycle ob = cid \<and> (is_notification ob \<longrightarrow> \<not> silentNavigation c)"
  by (induction E cid c href ob rule: obs_ok.induct) auto

lemma obs_ok_tags:
  "list_all (obs_ok E cid c href) tr \<Longrightarrow>
   list_all (\<lambda>ob. obs_cycle ob = cid \<and> (is_notification ob \<longrightarrow> \<not> silentNavigation c)) tr"
  by (auto simp: list_all_iff dest: obs_ok_tag)

lemma count_release_tagged:
  "list_all (\<lambda>ob. obs_cycle ob = cid) tr \<Longrightarrow>
   count_list tr (ListenersReleased k) = (if k = cid then length (filter is_release tr) else 0)"
proof (induction tr)
  case Nil
  then show ?case by simp
next
  case (Cons ob tr)
  then show ?case by (cases ob) auto
qed

lemma release_inv_upd:
  assumes "release_inv s" and "cid < length (cycles s)"
    and "list_all (\<lambda>ob. obs_cycle ob = cid) tr"
    and "length (filter is_release tr) + (if has_released (cycles s ! cid) then 1 else 0) =
         (if has_released c' then 1 else 0)"
  shows "release_inv (upd_cycle cid c' tr s)"
  unfolding release_inv_def
proof
  fix k
  have old: "count_list (trace s) (ListenersReleased k) =
      (if k < length (cycles s) \<and> has_released (cycles s ! k) then 1 else 0)"
    using assms(1) by (simp add: release_inv_def)
  show "count_list (trace (upd_cycle cid c' tr s)) (ListenersReleased k) =
        (if k < length (cycles (upd_cycle cid c' tr s)) \<and>
            has_released (cycles (upd_cycle cid c' tr s) ! k) then 1 else 0)"
  proof (cases "k = cid")
    case True
    with assms(2,4) old count_release_tagged[OF assms(3), of k] show ?thesis
      by (simp split: if_splits)
  next
    case False
    with old count_release_tagged[OF assms(3), of k] show ?thesis
      by simp
  qed
qed

lemma release_inv_reroute: "release_inv s \<Longrightarrow> release_inv (reroute pp ev sil s)"
  unfolding release_inv_def
proof
  fix k
  assume a: "\<forall>cid. count_list (trace s) (ListenersReleased cid) =
      (if cid < length (cycles s) \<and> has_released (cycles s ! cid) then 1 else 0)"
  have nr: "\<not> has_released (new_cycle pp ev sil s)" by (simp add: has_released_def)
  show "count_list (trace (reroute pp ev sil s)) (ListenersReleased k) =
        (if k < length (cycles (reroute pp ev sil s)) \<and>
            has_released (cycles (reroute pp ev sil s) ! k) then 1 else 0)"
    using a[rule_format, of k] nr
    by (auto simp: reroute_cycles nth_append less_Suc_eq)
qed

lemma obs_ok_cycle_tags:
  "list_all (obs_ok E cid c href) tr \<Longrightarrow> list_all (\<lambda>ob. obs_cycle ob = cid) tr"
  by (auto simp: list_all_iff dest: obs_ok_tag)

subsection \<open>The invariants under the cancellation and \<open>finishUpAndReturn\<close>\<close>

lemma underway_count_one:
  assumes "flight_inv s" and "cid < length (cycles s)" and "underway (cycles s ! cid)"
  shows "appChangeUnderway s \<and> started s \<and> length (filter underway (cycles s)) = 1"
proof -
  have "cycles s ! cid \<in> set (filter underway (cycles s))" using assms by simp
  then have "length (filter underway (cycles s)) \<noteq> 0" by (metis length_0_conv empty_iff list.set(1))
  with assms(1) show ?thesis by (auto simp: flight_inv_def split: if_splits)
qed

lemma flight_inv_end:
  assumes "flight_inv s" and "cid < length (cycles s)" and "underway (cycles s ! cid)"
    and "\<not> underway c'"
  shows "flight_inv ((upd_cycle cid c' tr s)\<lparr>appChangeUnderway := False\<rparr>) \<and> started s"
  using underway_count_one[OF assms(1-3)] assms(2-4)
    filter_update_count[of cid "cycles s" underway c']
  by (auto simp: flight_inv_def)

lemma all_inv_reroute: "all_inv s \<Longrightarrow> all_inv (reroute pp ev sil s)"
  by (simp add: all_inv_def url_inv_reroute flight_inv_reroute promises_inv_reroute
      trace_inv_reroute release_inv_reroute)

lemma all_inv_boot: "all_inv (boot org path ch)"
  by (simp add: all_inv_def boot_def url_inv_def flight_inv_def promises_inv_def trace_inv_def
      release_inv_def)

lemma all_inv_upd:
  assumes "all_inv s" and "cid < length (cycles s)" and "same_closure (cycles s ! cid) c'"
    and "underway c' \<longleftrightarrow> underway (cycles s ! cid)" and "promises_ok c'"
    and "list_all (obs_ok E cid (cycles s ! cid) href) tr"
    and "length (filter is_release tr) + (if has_released (cycles s ! cid) then 1 else 0) =
         (if has_released c' then 1 else 0)"
  shows "all_inv (upd_cycle cid c' tr s)"
proof -
  have sil: "silentNavigation c' = silentNavigation (cycles s ! cid)"
    and old: "oldUrl c' = oldUrl (cycles s ! cid)"
    using assms(3) by (simp_all add: same_closure_def)
  have tags: "list_all (\<lambda>ob. obs_cycle ob = cid \<and> (is_notification ob \<longrightarrow> \<not> silentNavigation c')) tr"
    using obs_ok_tags[OF assms(6)] sil by simp
  show ?thesis
    using assms(1) url_inv_upd[OF _ assms(2) old] flight_inv_upd[OF _ assms(2,4)]
      promises_inv_upd[OF _ assms(5)] trace_inv_upd[OF _ assms(2) sil tags]
      release_inv_upd[OF _ assms(2) obs_ok_cycle_tags[OF assms(6)] assms(7)]
    by (simp add: all_inv_def)
qed

lemma all_inv_cancel:
  assumes "all_inv s" and "cid < length (cycles s)" and "c = cycles s ! cid" and "pc c = AwaitCancel"
    and "take (length (origin s)) href = origin s"
  shows "all_inv (navigationCanceled cid c href s)"
proof -
  let ?rel = "drop (length (origin s)) (oldUrl c)"
  let ?c' = "c\<lparr>pc := Cancelled\<rparr>"
  let ?s1 = "upd_cycle cid ?c' [ReplacedState cid ?rel] s"
  let ?s4 = "?s1\<lparr>location := href, currentUrl := href, appChangeUnderway := False\<rparr>"
  have eq: "navigationCanceled cid c href s = reroute (pendingPromises c) (eventArguments c) True ?s4"
    by (simp add: navigationCanceled_def Let_def)
  have uw: "underway (cycles s ! cid)" "\<not> underway ?c'"
    using assms(3,4) by (simp_all add: underway_def)
  have u: "url_inv ?s1" using assms by (intro url_inv_upd) (simp_all add: all_inv_def)
  then have 1: "url_inv ?s4" using assms(5) by (simp add: url_inv_def)
  have "flight_inv (?s1\<lparr>appChangeUnderway := False\<rparr>)"
    using flight_inv_end[OF _ assms(2) uw] assms(1) by (simp add: all_inv_def)
  then have 2: "flight_inv ?s4" by (simp add: flight_inv_def)
  have pk: "promises_ok c"
    using assms(1-3) by (simp add: all_inv_def promises_inv_def list_all_length)
  have "promises_ok ?c'"
    using pk assms(4) by (simp add: promises_ok_def launched_def unmounts_fulfilled_def)
  then have "promises_inv ?s1" using assms(1) by (intro promises_inv_upd) (simp_all add: all_inv_def)
  then have 3: "promises_inv ?s4" by (simp add: promises_inv_def)
  have "trace_inv ?s1" using assms by (intro trace_inv_upd) (simp_all add: all_inv_def)
  then have 4: "trace_inv ?s4" by (simp add: trace_inv_def)
  have "release_inv ?s1" using assms
    by (intro release_inv_upd) (simp_all add: all_inv_def has_released_def)
  then have 5: "release_inv ?s4" by (simp add: release_inv_def)
  from 1 2 3 4 5 have "all_inv ?s4" by (simp add: all_inv_def)
  then show ?thesis unfolding eq by (rule all_inv_reroute)
qed

lemma all_inv_finish:
  assumes "all_inv s" and "cid < length (cycles s)" and "c = cycles s ! cid" and "pc c = AwaitMounts"
    and "list_all (\<lambda>t. t = ChainFulfilled) (loadThenMountPromises c @ mountPromises c)"
  shows "all_inv (finishUpAndReturn cid c s)"
proof -
  let ?c' = "c\<lparr>pc := Finished\<rparr>"
  let ?tr = "map (\<lambda>promise. PendingResolved cid (caller promise) (mountedApps s)) (pendingPromises c)
                  @ fireSingleSpaEvent cid c
                      (if length (appsThatChanged c) = 0 then ''no-app-change'' else ''app-change'')
                  @ fireSingleSpaEvent cid c ''routing-event''"
  let ?s1 = "upd_cycle cid ?c' ?tr s"
  let ?s2 = "?s1\<lparr>appChangeUnderway := False\<rparr>"
  have uw: "underway (cycles s ! cid)" "\<not> underway ?c'"
    using assms(3,4) by (simp_all add: underway_def)
  have 1: "url_inv ?s1" using assms by (intro url_inv_upd) (simp_all add: all_inv_def)
  have 2: "flight_inv ?s2"
    using flight_inv_end[OF _ assms(2) uw] assms(1) by (simp add: all_inv_def)
  have pk: "promises_ok c"
    using assms(1-3) by (simp add: all_inv_def promises_inv_def list_all_length)
  have "promises_ok ?c'"
    using pk assms(4,5) by (simp add: promises_ok_def launched_def unmounts_fulfilled_def)
  then have 3: "promises_inv ?s1" using assms(1) by (intro promises_inv_upd) (simp_all add: all_inv_def)
  have 4: "trace_inv ?s1" using assms
    by (intro trace_inv_upd) (auto simp: all_inv_def fireSingleSpaEvent_def list_all_iff)
  have 5: "release_inv ?s1" using assms
    by (intro release_inv_upd)
       (auto simp: all_inv_def has_released_def fireSingleSpaEvent_def list_all_iff filter_map comp_def)
  have s2: "all_inv ?s2" using 1 2 3 4 5
    by (simp add: all_inv_def url_inv_def promises_inv_def trace_inv_def release_inv_def)
  then have s3: "all_inv (?s2\<lparr>peopleWaitingOnAppChange := []\<rparr>)"
    by (simp add: all_inv_def url_inv_def promises_inv_def trace_inv_def flight_inv_def
        release_inv_def)
  show ?thesis
    using s2 all_inv_reroute[OF s3]
    by (simp add: finishUpAndReturn_def Let_def)
qed

lemma all_inv_step:
  assumes "all_inv s" and "step E l s = Some s'"
  shows "all_inv s'"
proof (cases l)
  case (Cyc cid cl)
  with assms(2) have cid: "cid < length (cycles s)"
    and cs: "cycle_step E cl cid (cycles s ! cid) s = Some s'"
    by (auto split: if_splits)
  from cs show ?thesis
  proof (cases rule: cycle_step_cases)
    case (Local c' tr w)
    have pk: "promises_ok (cycles s ! cid)"
      using assms(1) cid by (simp add: all_inv_def promises_inv_def list_all_length)
    have "all_inv (s\<lparr>window := w\<rparr>)"
      using assms(1)
      by (simp add: all_inv_def url_inv_def flight_inv_def promises_inv_def trace_inv_def
          release_inv_def)
    from all_inv_upd[OF this, of cid c' E "location s" tr] cid pk Local show ?thesis
      by simp
  next
    case (Cancel href)
    then show ?thesis using all_inv_cancel[OF assms(1) cid refl] by simp
  next
    case Finish
    then show ?thesis using all_inv_finish[OF assms(1) cid refl] by simp
  qed
next
  case (Navigate path)
  with assms show ?thesis
    by (auto simp: all_inv_def url_inv_def flight_inv_def promises_inv_def trace_inv_def
        release_inv_def)
next
  case (Reroute ev)
  with assms show ?thesis by (auto intro: all_inv_reroute)
next
  case Start
  show ?thesis
  proof (cases "started s")
    case True
    with assms Start show ?thesis by simp
  next
    case False
    have "all_inv (s\<lparr>started := True, window := patchHistoryApi (window s)\<rparr>)"
      using assms(1)
      by (simp add: all_inv_def url_inv_def flight_inv_def promises_inv_def trace_inv_def
          release_inv_def)
    from all_inv_reroute[OF this, of "[]" None False] assms(2) Start False show ?thesis by auto
  qed
next
  case (SetAppChanges ch)
  with assms show ?thesis
    by (auto simp: all_inv_def url_inv_def flight_inv_def promises_inv_def trace_inv_def
        release_inv_def)
next
  case (SetMountedApps as)
  with assms show ?thesis
    by (auto simp: all_inv_def url_inv_def flight_inv_def promises_inv_def trace_inv_def
        release_inv_def)
next
  case (AddListener k fn)
  with assms show ?thesis
    by (auto simp: all_inv_def url_inv_def flight_inv_def promises_inv_def trace_inv_def
        release_inv_def)
next
  case (RemoveListener k fn)
  with assms show ?thesis
    by (auto simp: all_inv_def url_inv_def flight_inv_def promises_inv_def trace_inv_def
        release_inv_def)
qed

lemma all_inv_exec: "all_inv s \<Longrightarrow> exec E ls s = Some s' \<Longrightarrow> all_inv s'"
  by (induction ls arbitrary: s) (auto split: option.splits dest: all_inv_step)

subsection \<open>What one step lets be observed\<close>

lemma new_obs_upd [simp]: "new_obs s (upd_cycle cid c tr s) = tr"
  by (simp add: new_obs_def)

lemma new_obs_upd_window [simp]: "new_obs s (upd_cycle cid c tr (s\<lparr>window := w\<rparr>)) = tr"
  by (simp add: new_obs_def)

lemma new_obs_reroute [simp]: "new_obs s (reroute pp ev sil s1) = new_obs s s1"
  by (simp add: new_obs_def)

lemma new_obs_cancel:
  "new_obs s (navigationCanceled cid c href s) =
   [ReplacedState cid (drop (length (origin s)) (oldUrl c))]"
  by (simp add: navigationCanceled_def Let_def new_obs_def)

lemma new_obs_finish:
  "new_obs s (finishUpAndReturn cid c s) =
     map (\<lambda>promise. PendingResolved cid (caller promise) (mountedApps s)) (pendingPromises c)
     @ fireSingleSpaEvent cid c (if length (appsThatChanged c) = 0 then ''no-app-change'' else ''app-change'')
     @ fireSingleSpaEvent cid c ''routing-event''"
  by (simp add: finishUpAndReturn_def Let_def new_obs_def)

lemma new_obs_other:
  assumes "step E l s = Some s'" and "\<And>cid cl. l \<noteq> Cyc cid cl"
  shows "new_obs s s' = []"
  using assms by (cases l) (auto simp: new_obs_def split: if_splits)

text \<open>A call of a lifecycle function seen in one step comes from a callback of its cycle.\<close>

lemma lifecycle_call_step:
  assumes "all_inv s" and "step E l s = Some s'"
    and "LifecycleCalled cid lc a \<in> set (new_obs s s')"
  shows "cid < length (cycles s) \<and> obs_ok E cid (cycles s ! cid) (location s) (LifecycleCalled cid lc a)"
proof (cases l)
  case (Cyc k cl)
  with assms(2) have k: "k < length (cycles s)"
    and cs: "cycle_step E cl k (cycles s ! k) s = Some s'"
    by (auto split: if_splits)
  from cs show ?thesis
  proof (cases rule: cycle_step_cases)
    case (Local c' tr w)
    with assms(3) have "obs_ok E k (cycles s ! k) (location s) (LifecycleCalled cid lc a)"
      by (auto simp: list_all_iff)
    moreover from this have "cid = k" by (cases lc) auto
    ultimately show ?thesis using k by simp
  next
    case (Cancel href)
    with assms(3) show ?thesis by (simp add: new_obs_cancel)
  next
    case Finish
    with assms(3) show ?thesis by (auto simp: new_obs_finish fireSingleSpaEvent_def split: if_splits)
  qed
qed (use assms new_obs_other[OF assms(2)] in auto)



lemmas run_defs = boot_def reroute_def new_cycle_def upd_cycle_def fireSingleSpaEvent_def
  callAllEventListeners_def callCapturedEventListeners_def tryToBootstrapAndMount_def
  patchHistoryApi_def navigationCanceled_def finishUpAndReturn_def
  chains_of_def chain_apps_def set_chain_def captured_def routingEventsListeningTo_def
  performAppChanges_start_def performAppChanges_afterCancel_def unmount_settled_def
  unmountAll_settles_def beforeMountRoutingEvent_def chain_settled_def unmountAll_reaction_def
  performAppChanges_afterUnmountAll_def performAppChanges_afterMounts_def loadApps_start_def
  load_settled_def loadApps_afterLoads_def addEventListener_def removeEventListener_def
  set_captured_def find_js_def Let_def released_def cancelWith_def replaceStateThrows_def
  performAppChanges_cancelAnswered_def replaceState_url_def path_absolute_def is_slash_def
  ends_authority_def plain_host_def origin_host_def

lemmas scenario_defs = launched_run_def unmounted_run_def active_at_def swap_changes_def
  swap_cycle_def swap_page_def patched_window_def swap_launched_def swap_unmounted_def
  swap_mounting_def swap_skipped_def swap_awaiting_def


lemmas quiet_defs = no_changes_def pop1_def hash2_def quiet_cycle_def quiet_page_def first_obs_def
  first_done_def to_mounts_def queue_run_def queued_page_def idle_page_def patched_window_def
  active_at_def

lemmas cancel_defs = cancel_run_def second_obs_def cancel_page_def reverted_page_def silent_run_def
  slash_page_def

lemmas release_defs = once_run_def once_page_def batch_run_def batch_page_def batch_release_def
  batch_completion_def batch_window_def batch_window_removed_def

lemmas overlap_defs = lazy_changes_def overlap_run_def lazy_cycle_def overlap_page_def pop1_def
  patched_window_def active_at_def

lemma launched_run_state:
  "exec (active_at ''http://h/b'') launched_run (boot ''http://h'' ''/b'' swap_changes) =
   Some swap_launched"
  by (simp add: scenario_defs run_defs)

lemma unmounted_run_state:
  "exec (active_at ''http://h/b'') unmounted_run (boot ''http://h'' ''/b'' swap_changes) =
   Some (swap_unmounted ''http://h/b'')"
  by (simp add: scenario_defs run_defs)


lemma mount_step:
  "step (active_at ''http://h/b'') (Cyc 0 (UnmountAllReaction PlainMount 0))
     (swap_unmounted ''http://h/b'') = Some swap_mounting"
  by (simp add: scenario_defs run_defs)


subsection \<open>Mounting waits for unmounting\<close>



subsection \<open>One cycle at a time\<close>

lemma lifecycle_call_origin:
  assumes "all_inv s" and "step E l s = Some s'"
    and "LifecycleCalled cid lc a \<in> set (new_obs s s')"
  shows "underway (cycles s ! cid) \<or> pc (cycles s ! cid) = LoadScheduled \<and> lc = Load"
proof (cases l)
  case (Cyc k cl)
  with assms(2) have k: "k < length (cycles s)"
    and cs: "cycle_step E cl k (cycles s ! k) s = Some s'"
    by (auto split: if_splits)
  from assms(1) k have pk: "promises_ok (cycles s ! k)"
    by (simp add: all_inv_def promises_inv_def list_all_length)
  from cs show ?thesis
  proof (cases rule: cycle_step_cases)
    case (Local c' tr w)
    from Local(1,6) assms(3)
    have "obs_ok E k (cycles s ! k) (location s) (LifecycleCalled cid lc a)"
      by (auto simp: list_all_iff)
    then have "cid = k" by (cases lc) auto
    moreover from Local(5)[OF pk] Local(1) assms(3)
    have "underway (cycles s ! k) \<or>
          pc (cycles s ! k) = LoadScheduled \<and> is_load_call (LifecycleCalled cid lc a)"
      by (auto simp: list_all_iff)
    moreover have "is_load_call (LifecycleCalled cid lc a) \<Longrightarrow> lc = Load"
      by (cases lc) auto
    ultimately show ?thesis by auto
  next
    case (Cancel href)
    with assms(3) show ?thesis by (simp add: new_obs_cancel)
  next
    case Finish
    with assms(3) show ?thesis by (auto simp: new_obs_finish fireSingleSpaEvent_def split: if_splits)
  qed
qed (use assms new_obs_other[OF assms(2)] in auto)

lemma underway_at_most_one: "flight_inv s \<Longrightarrow> length (filter underway (cycles s)) \<le> 1"
  by (simp add: flight_inv_def)

lemma reroute_queues:
  "appChangeUnderway s \<Longrightarrow>
   reroute pp ev sil s =
     s\<lparr>peopleWaitingOnAppChange := peopleWaitingOnAppChange s @
          [\<lparr>caller = nextCaller s, p_eventArguments = ev\<rparr>],
       nextCaller := Suc (nextCaller s)\<rparr>"
  by (simp add: reroute_def)

lemma finish_drains:
  assumes "started s" and "peopleWaitingOnAppChange s \<noteq> []"
  shows "cycles (finishUpAndReturn cid c s) =
           (cycles s)[cid := c\<lparr>pc := Finished\<rparr>] @ [last (cycles (finishUpAndReturn cid c s))] \<and>
         pendingPromises (last (cycles (finishUpAndReturn cid c s))) = peopleWaitingOnAppChange s \<and>
         eventArguments (last (cycles (finishUpAndReturn cid c s))) = None \<and>
         \<not> silentNavigation (last (cycles (finishUpAndReturn cid c s))) \<and>
         pc (last (cycles (finishUpAndReturn cid c s))) = Scheduled \<and>
         peopleWaitingOnAppChange (finishUpAndReturn cid c s) = [] \<and>
         appChangeUnderway (finishUpAndReturn cid c s)"
  using assms by (simp add: finishUpAndReturn_def Let_def reroute_def)

lemma finish_idle:
  assumes "peopleWaitingOnAppChange s = []"
  shows "cycles (finishUpAndReturn cid c s) = (cycles s)[cid := c\<lparr>pc := Finished\<rparr>] \<and>
         \<not> appChangeUnderway (finishUpAndReturn cid c s)"
  using assms by (simp add: finishUpAndReturn_def Let_def)

lemma queue_run_state:
  "exec (active_at ''http://h/b'') queue_run (boot ''http://h'' ''/b'' no_changes) = Some queued_page"
  by (simp add: quiet_defs run_defs)

lemma idle_run_state:
  "exec (active_at ''http://h/b'') (Start # to_mounts) (boot ''http://h'' ''/b'' no_changes) =
   Some idle_page"
  by (simp add: quiet_defs run_defs)

text \<open>
  C2, as the code has it. In every run from a freshly loaded page: at most one cycle of
  started mode (\<open>performAppChanges\<close>) is under way; a call of \<open>reroute\<close> while
  \<open>appChangeUnderway\<close> is set starts no cycle and only appends the caller, with the event,
  at the end of the queue; when the last callback of the cycle under way runs
  \<open>finishUpAndReturn\<close>, a non-empty queue is emptied into the pending promises of exactly
  one new cycle, which is then the one under way, and an empty queue leaves the flag cleared
  and no new cycle; and every call of a lifecycle function comes from the cycle under way,
  except that \<open>toLoadPromise\<close> may also be called by a cycle begun before \<open>start()\<close>
  (\<open>loadApps\<close>), which never takes the flag.
\<close>

theorem single_flight:
  assumes "exec E ls (boot org path ch) = Some s"
  shows "length (filter underway (cycles s)) \<le> 1 \<and>
         (appChangeUnderway s \<longrightarrow>
            reroute pp ev sil s =
              s\<lparr>peopleWaitingOnAppChange := peopleWaitingOnAppChange s @
                   [\<lparr>caller = nextCaller s, p_eventArguments = ev\<rparr>],
                nextCaller := Suc (nextCaller s)\<rparr>) \<and>
         (cid < length (cycles s) \<and> pc (cycles s ! cid) = AwaitMounts \<and>
          list_all (\<lambda>t. t = ChainFulfilled)
            (loadThenMountPromises (cycles s ! cid) @ mountPromises (cycles s ! cid)) \<longrightarrow>
            step E (Cyc cid AfterMounts) s = Some (finishUpAndReturn cid (cycles s ! cid) s) \<and>
            (if peopleWaitingOnAppChange s \<noteq> [] then
               cycles (finishUpAndReturn cid (cycles s ! cid) s) =
                 (cycles s)[cid := (cycles s ! cid)\<lparr>pc := Finished\<rparr>] @
                 [last (cycles (finishUpAndReturn cid (cycles s ! cid) s))] \<and>
               pendingPromises (last (cycles (finishUpAndReturn cid (cycles s ! cid) s))) =
                 peopleWaitingOnAppChange s \<and>
               pc (last (cycles (finishUpAndReturn cid (cycles s ! cid) s))) = Scheduled \<and>
               peopleWaitingOnAppChange (finishUpAndReturn cid (cycles s ! cid) s) = [] \<and>
               appChangeUnderway (finishUpAndReturn cid (cycles s ! cid) s)
             else
               cycles (finishUpAndReturn cid (cycles s ! cid) s) =
                 (cycles s)[cid := (cycles s ! cid)\<lparr>pc := Finished\<rparr>] \<and>
               \<not> appChangeUnderway (finishUpAndReturn cid (cycles s ! cid) s))) \<and>
         (\<forall>l s'. step E l s = Some s' \<and> LifecycleCalled k lc a \<in> set (new_obs s s') \<longrightarrow>
            k < length (cycles s) \<and>
            (underway (cycles s ! k) \<or> pc (cycles s ! k) = LoadScheduled \<and> lc = Load))"
proof -
  have inv: "all_inv s" using all_inv_exec[OF all_inv_boot assms(1)] .
  then have fl: "flight_inv s" by (simp add: all_inv_def)
  have 1: "length (filter underway (cycles s)) \<le> 1" using fl by (rule underway_at_most_one)
  have 3: "step E (Cyc cid AfterMounts) s = Some (finishUpAndReturn cid (cycles s ! cid) s)"
    if "cid < length (cycles s)" "pc (cycles s ! cid) = AwaitMounts"
       "list_all (\<lambda>t. t = ChainFulfilled)
            (loadThenMountPromises (cycles s ! cid) @ mountPromises (cycles s ! cid))"
    using that by (auto simp: performAppChanges_afterMounts_def list_all_iff list_ex_iff)
  have st: "started s" if "cid < length (cycles s)" "pc (cycles s ! cid) = AwaitMounts"
    using underway_count_one[OF fl that(1)] that(2) by (simp add: underway_def)
  have 4: "k < length (cycles s) \<and>
           (underway (cycles s ! k) \<or> pc (cycles s ! k) = LoadScheduled \<and> lc = Load)"
    if "step E l s = Some s'" "LifecycleCalled k lc a \<in> set (new_obs s s')" for l s'
    using lifecycle_call_step[OF inv that] lifecycle_call_origin[OF inv that] by simp
  have 123: "length (filter underway (cycles s)) \<le> 1 \<and>
         (appChangeUnderway s \<longrightarrow>
            reroute pp ev sil s =
              s\<lparr>peopleWaitingOnAppChange := peopleWaitingOnAppChange s @
                   [\<lparr>caller = nextCaller s, p_eventArguments = ev\<rparr>],
                nextCaller := Suc (nextCaller s)\<rparr>) \<and>
         (cid < length (cycles s) \<and> pc (cycles s ! cid) = AwaitMounts \<and>
          list_all (\<lambda>t. t = ChainFulfilled)
            (loadThenMountPromises (cycles s ! cid) @ mountPromises (cycles s ! cid)) \<longrightarrow>
            step E (Cyc cid AfterMounts) s = Some (finishUpAndReturn cid (cycles s ! cid) s) \<and>
            (if peopleWaitingOnAppChange s \<noteq> [] then
               cycles (finishUpAndReturn cid (cycles s ! cid) s) =
                 (cycles s)[cid := (cycles s ! cid)\<lparr>pc := Finished\<rparr>] @
                 [last (cycles (finishUpAndReturn cid (cycles s ! cid) s))] \<and>
               pendingPromises (last (cycles (finishUpAndReturn cid (cycles s ! cid) s))) =
                 peopleWaitingOnAppChange s \<and>
               pc (last (cycles (finishUpAndReturn cid (cycles s ! cid) s))) = Scheduled \<and>
               peopleWaitingOnAppChange (finishUpAndReturn cid (cycles s ! cid) s) = [] \<and>
               appChangeUnderway (finishUpAndReturn cid (cycles s ! cid) s)
             else
               cycles (finishUpAndReturn cid (cycles s ! cid) s) =
                 (cycles s)[cid := (cycles s ! cid)\<lparr>pc := Finished\<rparr>] \<and>
               \<not> appChangeUnderway (finishUpAndReturn cid (cycles s ! cid) s)))"
    using 1 reroute_queues[of s pp ev sil] 3 st
      finish_drains[of s cid "cycles s ! cid"] finish_idle[of s cid "cycles s ! cid"]
    by (simp split: if_splits)
  from 123 4 show ?thesis by blast
qed

text \<open>
  The theorem on the page where nothing changes, with two calls of \<open>reroute\<close> queued
  behind the first cycle: a third call is queued behind them, the end of the cycle starts
  one cycle for both, and with nobody queued it starts none. And on the page with two
  applications: the call that mounts \<open>b\<close> comes from the cycle under way.
\<close>

theorem single_flight_witness:
  "length (filter underway (cycles queued_page)) = 1 \<and>
   appChangeUnderway queued_page \<and>
   reroute [] (Some pop1) False queued_page =
     queued_page\<lparr>peopleWaitingOnAppChange :=
         [\<lparr>caller = 0, p_eventArguments = Some pop1\<rparr>, \<lparr>caller = 1, p_eventArguments = Some hash2\<rparr>,
          \<lparr>caller = 2, p_eventArguments = Some pop1\<rparr>],
       nextCaller := 3\<rparr> \<and>
   step (active_at ''http://h/b'') (Cyc 0 AfterMounts) queued_page =
     Some (quiet_page True [] ''http://h/b'' patched_window
       [quiet_cycle [] None False ''http://h/b'' ''http://h/b'' [] Finished Fulfilled True,
        quiet_cycle [\<lparr>caller = 0, p_eventArguments = Some pop1\<rparr>, \<lparr>caller = 1, p_eventArguments = Some hash2\<rparr>]
          None False ''http://h/b'' ''http://h/b'' [] Scheduled Pending False] 2 first_done) \<and>
   step (active_at ''http://h/b'') (Cyc 0 AfterMounts) idle_page =
     Some (quiet_page False [] ''http://h/b'' patched_window
       [quiet_cycle [] None False ''http://h/b'' ''http://h/b'' [] Finished Fulfilled True] 0 first_done) \<and>
   LifecycleCalled 0 Mount ''b'' \<in> set (new_obs (swap_unmounted ''http://h/b'') swap_mounting) \<and>
   underway (cycles (swap_unmounted ''http://h/b'') ! 0)"
proof -
  have u: "length (filter underway (cycles queued_page)) = 1"
    by (simp add: quiet_defs underway_def)
  have f: "appChangeUnderway queued_page" by (simp add: quiet_defs)
  from single_flight[OF queue_run_state, of "[]" "Some pop1" False 0] f
  have r: "reroute [] (Some pop1) False queued_page =
     queued_page\<lparr>peopleWaitingOnAppChange := peopleWaitingOnAppChange queued_page @
          [\<lparr>caller = nextCaller queued_page, p_eventArguments = Some pop1\<rparr>],
       nextCaller := Suc (nextCaller queued_page)\<rparr>"
    by blast
  have q: "step (active_at ''http://h/b'') (Cyc 0 AfterMounts) queued_page =
     Some (quiet_page True [] ''http://h/b'' patched_window
       [quiet_cycle [] None False ''http://h/b'' ''http://h/b'' [] Finished Fulfilled True,
        quiet_cycle [\<lparr>caller = 0, p_eventArguments = Some pop1\<rparr>, \<lparr>caller = 1, p_eventArguments = Some hash2\<rparr>]
          None False ''http://h/b'' ''http://h/b'' [] Scheduled Pending False] 2 first_done)"
    by (simp add: quiet_defs run_defs)
  have i: "step (active_at ''http://h/b'') (Cyc 0 AfterMounts) idle_page =
     Some (quiet_page False [] ''http://h/b'' patched_window
       [quiet_cycle [] None False ''http://h/b'' ''http://h/b'' [] Finished Fulfilled True] 0 first_done)"
    by (simp add: quiet_defs run_defs)
  have m: "LifecycleCalled 0 Mount ''b'' \<in>
           set (new_obs (swap_unmounted ''http://h/b'') swap_mounting)"
    by (simp add: new_obs_def scenario_defs)
  from single_flight[OF unmounted_run_state, of "[]" None False 0 0 Mount "''b''"] mount_step m
  have w: "underway (cycles (swap_unmounted ''http://h/b'') ! 0)"
    by blast
  show ?thesis using u f r q i m w by (simp add: quiet_defs)
qed

text \<open>
  Against C2 as worded (at most one cycle's logic runs at a time): \<open>reroute\<close> is called
  before \<open>start()\<close>, which begins a cycle of \<open>loadApps\<close> without setting the flag;
  \<open>start()\<close> begins a cycle of \<open>performAppChanges\<close>; the next call of \<open>reroute\<close> finds
  the flag set and is queued. Then the first cycle is waiting for its load of \<open>b\<close> while
  the second, past its cancellation check, is waiting for its own load of \<open>b\<close>: both have
  called \<open>toLoadPromise\<close>, and both are in the middle of their phases.
\<close>

theorem overlapping_cycles_counterexample:
  "exec (active_at ''http://h/b'') overlap_run (boot ''http://h'' ''/b'' lazy_changes) =
     Some overlap_page \<and>
   appChangeUnderway overlap_page \<and>
   peopleWaitingOnAppChange overlap_page = [\<lparr>caller = 0, p_eventArguments = Some pop1\<rparr>] \<and>
   length (cycles overlap_page) = 2 \<and>
   pc (cycles overlap_page ! 0) = LoadAwait \<and>
   loadPromises (cycles overlap_page ! 0) = [Pending] \<and>
   pc (cycles overlap_page ! 1) = AwaitUnmountAll \<and>
   loadThenMountPromises (cycles overlap_page ! 1) = [Loading] \<and>
   filter is_lifecycle_call (trace overlap_page) =
     [LifecycleCalled 0 Load ''b'', LifecycleCalled 1 Load ''b'']"
  by (simp add: overlap_defs run_defs)

subsection \<open>Bootstrapping does not wait, mounting does\<close>











subsection \<open>Cancellation\<close>

lemma cancel_result:
  assumes "flight_inv s" and "cid < length (cycles s)" and "c = cycles s ! cid"
    and "pc c = AwaitCancel"
  shows "location (navigationCanceled cid c href s) = href \<and>
         currentUrl (navigationCanceled cid c href s) = href \<and>
         peopleWaitingOnAppChange (navigationCanceled cid c href s) = peopleWaitingOnAppChange s \<and>
         nextCaller (navigationCanceled cid c href s) = nextCaller s \<and>
         appChangeUnderway (navigationCanceled cid c href s) \<and>
         cycles (navigationCanceled cid c href s) =
           (cycles s)[cid := c\<lparr>pc := Cancelled\<rparr>] @
           [last (cycles (navigationCanceled cid c href s))] \<and>
         silentNavigation (last (cycles (navigationCanceled cid c href s))) \<and>
         pc (last (cycles (navigationCanceled cid c href s))) = Scheduled \<and>
         pendingPromises (last (cycles (navigationCanceled cid c href s))) = pendingPromises c \<and>
         eventArguments (last (cycles (navigationCanceled cid c href s))) = eventArguments c \<and>
         oldUrl (last (cycles (navigationCanceled cid c href s))) = href \<and>
         newUrl (last (cycles (navigationCanceled cid c href s))) = href"
proof -
  have "underway c" using assms(4) by (simp add: underway_def)
  then have st: "started s" using underway_count_one[OF assms(1,2)] assms(3) by simp
  show ?thesis using st
    by (simp add: navigationCanceled_def Let_def reroute_def)
qed

lemma path_reference_resolves:
  assumes "url_inv s" and "cid < length (cycles s)"
    and "path_absolute (drop (length (origin s)) (oldUrl (cycles s ! cid)))"
  shows "replaceState_url (origin s) (drop (length (origin s)) (oldUrl (cycles s ! cid))) =
         Some (Replaces (oldUrl (cycles s ! cid)))"
proof -
  have "take (length (origin s)) (oldUrl (cycles s ! cid)) = origin s"
    using assms(1,2) by (simp add: url_inv_def list_all_length)
  then have "origin s @ drop (length (origin s)) (oldUrl (cycles s ! cid)) = oldUrl (cycles s ! cid)"
    by (metis append_take_drop_id)
  with assms(3) show ?thesis by (simp add: replaceState_url_def)
qed

lemma silent_step_quiet:
  assumes "step E (Cyc k cl) s = Some s'" and "silentNavigation (cycles s ! k)"
  shows "filter is_notification (new_obs s s') = []"
proof -
  from assms(1) have cs: "cycle_step E cl k (cycles s ! k) s = Some s'"
    by (auto split: if_splits)
  from cs show ?thesis
  proof (cases rule: cycle_step_cases)
    case (Local c' tr w)
    from obs_ok_tags[OF Local(6)] assms(2) have "list_all (\<lambda>ob. \<not> is_notification ob) tr"
      by (auto simp: list_all_iff)
    with Local(1) show ?thesis by (simp add: filter_empty_conv list_all_iff)
  next
    case (Cancel href)
    then show ?thesis by (simp add: new_obs_cancel)
  next
    case Finish
    with assms(2) show ?thesis
      by (simp add: new_obs_finish fireSingleSpaEvent_def filter_map comp_def)
  qed
qed

text \<open>
  What the cancellation does when the old url, after the origin, is a path that begins
  with one slash. In every run from a freshly loaded page, when the cancellation inputs of
  a cycle have settled and one of them is truthy, the callback puts the url back to the url
  the cycle started from, by the saved \<open>replaceState\<close> and nothing else (no event is
  dispatched, so \<open>reroute\<close> is not entered through \<open>urlReroute\<close>), \<open>currentUrl\<close> follows,
  the queue of callers is left as it is, and exactly one new cycle begins, silent, with the
  pending promises and the event of the cancelled one: the flag was cleared for it and is
  set again by it. And whatever callback of a silent cycle runs, in whatever state, it
  dispatches no event and calls no captured listener.
\<close>

lemma cancellation_reverts_silently:
  assumes "exec E ls (boot org path ch) = Some s" and "cid < length (cycles s)"
    and "pc (cycles s ! cid) = AwaitCancel" and "list_ex truthy (cancelPromises (cycles s ! cid))"
    and "path_absolute (drop (length (origin s)) (oldUrl (cycles s ! cid)))"
    and "s' = navigationCanceled cid (cycles s ! cid) (oldUrl (cycles s ! cid)) s"
  shows "step E (Cyc cid CancelsSettled) s = Some s' \<and>
         location s' = oldUrl (cycles s ! cid) \<and>
         currentUrl s' = oldUrl (cycles s ! cid) \<and>
         new_obs s s' = [ReplacedState cid (drop (length (origin s)) (oldUrl (cycles s ! cid)))] \<and>
         peopleWaitingOnAppChange s' = peopleWaitingOnAppChange s \<and>
         appChangeUnderway s' \<and>
         cycles s' = (cycles s)[cid := (cycles s ! cid)\<lparr>pc := Cancelled\<rparr>] @ [last (cycles s')] \<and>
         silentNavigation (last (cycles s')) \<and>
         pc (last (cycles s')) = Scheduled \<and>
         pendingPromises (last (cycles s')) = pendingPromises (cycles s ! cid) \<and>
         eventArguments (last (cycles s')) = eventArguments (cycles s ! cid) \<and>
         (\<forall>k cl t t'. silentNavigation (cycles t ! k) \<and> step E (Cyc k cl) t = Some t' \<longrightarrow>
            filter is_notification (new_obs t t') = [])"
proof -
  have inv: "all_inv s" using all_inv_exec[OF all_inv_boot assms(1)] .
  then have u: "url_inv s" and f: "flight_inv s" by (simp_all add: all_inv_def)
  have st: "step E (Cyc cid CancelsSettled) s = Some s'"
    using assms(2,3,4,6) path_reference_resolves[OF u assms(2,5)]
    by (simp add: performAppChanges_afterCancel_def cancelWith_def)
  show ?thesis
    unfolding assms(6)
    using st[unfolded assms(6)] cancel_result[OF f assms(2) refl assms(3)] new_obs_cancel
      silent_step_quiet
    by blast
qed

lemma cancel_run_state:
  "exec (active_at ''http://h/b'') cancel_run (boot ''http://h'' ''/b'' no_changes) = Some cancel_page"
  by (simp add: cancel_defs quiet_defs run_defs)

text \<open>
  On the page where nothing changes: the url has moved from \<open>/b\<close> to \<open>/c\<close> and a
  listener cancels the navigation. The url is back at \<open>/b\<close>, the only thing observed is
  the call of \<open>replaceState\<close>, and the silent cycle then runs to its end without anything
  more being observed.
\<close>

lemma cancellation_reverts_on_quiet_page:
  "step (active_at ''http://h/b'') (Cyc 1 CancelsSettled) cancel_page =
     Some (reverted_page Scheduled Pending False True) \<and>
   location cancel_page = ''http://h/c'' \<and>
   oldUrl (cycles cancel_page ! 1) = ''http://h/b'' \<and>
   location (reverted_page Scheduled Pending False True) = ''http://h/b'' \<and>
   new_obs cancel_page (reverted_page Scheduled Pending False True) = [ReplacedState 1 ''/b''] \<and>
   exec (active_at ''http://h/b'') (silent_run @ [Cyc 2 AfterMounts])
     (reverted_page Scheduled Pending False True) =
     Some (reverted_page Finished Fulfilled True False) \<and>
   trace (reverted_page Finished Fulfilled True False) = second_obs @ [ReplacedState 1 ''/b''] \<and>
   location (reverted_page Finished Fulfilled True False) = ''http://h/b''"
proof -
  have a: "1 < length (cycles cancel_page)" "pc (cycles cancel_page ! 1) = AwaitCancel"
    "list_ex truthy (cancelPromises (cycles cancel_page ! 1))"
    "path_absolute (drop (length (origin cancel_page)) (oldUrl (cycles cancel_page ! 1)))"
    by (simp_all add: cancel_defs quiet_defs path_absolute_def is_slash_def)
  have n: "reverted_page Scheduled Pending False True =
           navigationCanceled 1 (cycles cancel_page ! 1) (oldUrl (cycles cancel_page ! 1)) cancel_page"
    by (simp add: cancel_defs quiet_defs run_defs)
  from cancellation_reverts_silently[OF cancel_run_state a n]
  have 1: "step (active_at ''http://h/b'') (Cyc 1 CancelsSettled) cancel_page =
     Some (reverted_page Scheduled Pending False True)"
    and 2: "location (reverted_page Scheduled Pending False True) = oldUrl (cycles cancel_page ! 1)"
    and 3: "new_obs cancel_page (reverted_page Scheduled Pending False True) =
       [ReplacedState 1 (drop (length (origin cancel_page)) (oldUrl (cycles cancel_page ! 1)))]"
    by blast+
  have 6: "exec (active_at ''http://h/b'') (silent_run @ [Cyc 2 AfterMounts])
     (reverted_page Scheduled Pending False True) =
     Some (reverted_page Finished Fulfilled True False)"
    by (simp add: cancel_defs quiet_defs run_defs)
  show ?thesis using 1 2 3 6 by (simp add: cancel_defs quiet_defs)
qed

text \<open>
  C4, where the code does not do it. The page is at \<open>http://h//x/y\<close>, a url whose path
  begins with two slashes. Its first cycle is done, the url moves to \<open>http://h/c\<close>, and a
  listener of \<open>before-routing-event\<close> cancels the navigation. The callback hands
  \<open>oldUrl.substring(location.origin.length)\<close>, which is \<open>//x/y\<close>, to \<open>replaceState\<close>. The
  browser reads that reference as the host \<open>x\<close> with the path \<open>/y\<close>, a url of another
  origin, and throws. The callback ends there: the url stays at \<open>http://h/c\<close>,
  \<open>currentUrl\<close> too, \<open>appChangeUnderway\<close> stays set, no further cycle begins and none is
  silent.
\<close>

theorem cancellation_throws_at_double_slash_path:
  "exec (active_at ''http://h/b'') cancel_run (boot ''http://h'' ''//x/y'' no_changes) =
     Some (slash_page AwaitCancel []) \<and>
   location (slash_page AwaitCancel []) = ''http://h/c'' \<and>
   oldUrl (cycles (slash_page AwaitCancel []) ! 1) = ''http://h//x/y'' \<and>
   cancelPromises (cycles (slash_page AwaitCancel []) ! 1) = [JBool True] \<and>
   drop (length (origin (slash_page AwaitCancel [])))
     (oldUrl (cycles (slash_page AwaitCancel []) ! 1)) = ''//x/y'' \<and>
   replaceState_url ''http://h'' ''//x/y'' = Some ThrowsSecurityError \<and>
   step (active_at ''http://h/b'') (Cyc 1 CancelsSettled) (slash_page AwaitCancel []) =
     Some (slash_page CancelFailed [ReplacedState 1 ''//x/y'']) \<and>
   location (slash_page CancelFailed [ReplacedState 1 ''//x/y'']) = ''http://h/c'' \<and>
   currentUrl (slash_page CancelFailed [ReplacedState 1 ''//x/y'']) = ''http://h/c'' \<and>
   appChangeUnderway (slash_page CancelFailed [ReplacedState 1 ''//x/y'']) \<and>
   length (cycles (slash_page CancelFailed [ReplacedState 1 ''//x/y''])) = 2 \<and>
   filter silentNavigation (cycles (slash_page CancelFailed [ReplacedState 1 ''//x/y''])) = []"
  by (simp add: cancel_defs quiet_defs run_defs)

subsection \<open>The release of the buffered events\<close>

lemma release_step:
  assumes "step E (Cyc cid (AfterUnmountAll script)) s = Some s'"
  shows "new_obs s s' =
           fst (callAllEventListeners cid (cycles s ! cid) (started s) script (window s)) \<and>
         window s' = snd (callAllEventListeners cid (cycles s ! cid) (started s) script (window s))"
  using assms
  by (auto simp: performAppChanges_afterUnmountAll_def released_eq split: if_splits pstate.splits)

lemma load_release_step:
  assumes "step E (Cyc cid (AfterLoads script)) s = Some s'"
  shows "new_obs s s' =
           fst (callAllEventListeners cid (cycles s ! cid) (started s) script (window s)) \<and>
         window s' = snd (callAllEventListeners cid (cycles s ! cid) (started s) script (window s))"
  using assms
  by (auto simp: loadApps_afterLoads_def released_eq split: if_splits)

lemma release_at_boundary:
  assumes "step E l s = Some s'" and "ListenersReleased cid \<in> set (new_obs s s')"
  shows "cid < length (cycles s) \<and> \<not> silentNavigation (cycles s ! cid) \<and>
         (pc (cycles s ! cid) = AwaitUnmountAll \<and> unmountAllPromise (cycles s ! cid) \<noteq> Pending \<or>
          pc (cycles s ! cid) = LoadAwait \<and>
          (list_ex (\<lambda>p. p = Rejected) (loadPromises (cycles s ! cid)) \<or>
           list_all (\<lambda>p. p = Fulfilled) (loadPromises (cycles s ! cid))))"
proof (cases l)
  case (Cyc k cl)
  with assms(1) have k: "k < length (cycles s)"
    and cs: "cycle_step E cl k (cycles s ! k) s = Some s'"
    by (auto split: if_splits)
  from cs show ?thesis
  proof (cases rule: cycle_step_cases)
    case (Local c' tr w)
    from Local(6) have "\<forall>ob\<in>set tr. obs_ok E k (cycles s ! k) (location s) ob"
      by (simp only: list_all_iff)
    moreover from assms(2) Local(1) have "ListenersReleased cid \<in> set tr" by simp
    ultimately have o: "obs_ok E k (cycles s ! k) (location s) (ListenersReleased cid)"
      by blast
    then have "cid = k" by simp
    with o k show ?thesis by simp
  next
    case (Cancel href)
    with assms(2) show ?thesis by (simp add: new_obs_cancel)
  next
    case Finish
    with assms(2) show ?thesis by (auto simp: new_obs_finish fireSingleSpaEvent_def split: if_splits)
  qed
qed (use assms new_obs_other[OF assms(1)] in auto)

lemma completion_step_no_release:
  assumes "step E (Cyc cid AfterMounts) s = Some s'"
  shows "filter is_release (new_obs s s') = [] \<and> filter is_listener_call (new_obs s s') = []"
  using assms
  by (auto simp: performAppChanges_afterMounts_def new_obs_finish fireSingleSpaEvent_def
      filter_empty_conv split: if_splits)

lemma add_appends:
  "k \<in> set routingEventsListeningTo \<Longrightarrow> f \<notin> set (captured k w) \<Longrightarrow>
   captured k (addEventListener k (JFun f) w) = captured k w @ [f]"
  by (auto simp: addEventListener_def find_js_def find_None_iff set_captured_def captured_def
      routingEventsListeningTo_def)

lemma replay_untouched:
  "replay patched events [] w = (concat (map (\<lambda>ev. callCapturedEventListeners ev w) events), w)"
  by (induction events) simp_all

lemma replay_next:
  "fst (replay patched (ev # events) script w) =
   callCapturedEventListeners ev w @
   fst (replay patched events (drop (length (callCapturedEventListeners ev w)) script)
          (fold (window_action patched)
             (concat (take (length (callCapturedEventListeners ev w)) script)) w))"
  by (simp add: Let_def split_def)

lemma once_run_state:
  "exec (active_at ''http://h/b'') once_run (boot ''http://h'' ''/b'' no_changes) = Some once_page"
  by (simp add: release_defs cancel_defs quiet_defs run_defs)

lemma batch_run_state:
  "exec (active_at ''http://h/b'') batch_run (boot ''http://h'' ''/b'' no_changes) =
   Some (batch_page AwaitUnmountAll True batch_window [])"
  by (simp add: release_defs cancel_defs quiet_defs run_defs)

lemma batch_released_state:
  "exec (active_at ''http://h/b'') (batch_run @ [Cyc 1 (AfterUnmountAll [])])
     (boot ''http://h'' ''/b'' no_changes) =
   Some (batch_page AwaitMounts True batch_window batch_release)"
  by (simp add: release_defs cancel_defs quiet_defs run_defs)

lemma batch_release_step:
  "step (active_at ''http://h/b'') (Cyc 1 (AfterUnmountAll []))
     (batch_page AwaitUnmountAll True batch_window []) =
   Some (batch_page AwaitMounts True batch_window batch_release)"
  by (simp add: release_defs cancel_defs quiet_defs run_defs)

lemma batch_removing_step:
  "step (active_at ''http://h/b'') (Cyc 1 (AfterUnmountAll [[Removes ''hashchange'' (JFun 7)]]))
     (batch_page AwaitUnmountAll True batch_window []) =
   Some (batch_page AwaitMounts True batch_window_removed
           [ListenersReleased 1, ListenerCalled 1 5 pop1, ListenerCalled 1 6 pop1])"
  by (simp add: release_defs cancel_defs quiet_defs run_defs)

lemma batch_completion_step:
  "step (active_at ''http://h/b'') (Cyc 1 AfterMounts)
     (batch_page AwaitMounts True batch_window batch_release) =
   Some (batch_page Finished False batch_window (batch_release @ batch_completion))"
  by (simp add: release_defs cancel_defs quiet_defs run_defs)

text \<open>
  C5, as the code has it. In every run from a freshly loaded page, each cycle has called
  \<open>callAllEventListeners\<close> exactly once if it is not silent and is past the point where
  its unmounts and unloads (or, before \<open>start()\<close>, its loads) have settled, and not at all
  otherwise: so once in all for a cycle that is not silent and has finished, and never for
  a cycle that is silent, was cancelled, or ended in its cancellation. The callback run
  when the unmounts and unloads (or the loads) have settled makes, if the cycle is not
  silent, the calls of the captured listeners, and no other step of a run releases: the events are taken in turn, first that of each pending
  promise, oldest first, then that of the cycle itself, and each is given to the listeners
  captured for its kind when its turn comes, in the order of the registry; what the
  listeners called do to the registry shows from the next event on, and listeners that
  leave it alone are all called from the registry as the callback found it. The callback
  that completes the cycle (\<open>finishUpAndReturn\<close>) releases nothing and calls no captured
  listener. A listener not yet captured is registered at the end of the registry: the
  order of the registry is the order of registration.
\<close>

theorem listeners_released_once:
  assumes "exec E ls (boot org path ch) = Some s"
  shows "count_list (trace s) (ListenersReleased cid) =
           (if cid < length (cycles s) \<and> has_released (cycles s ! cid) then 1 else 0) \<and>
         (cid < length (cycles s) \<and> \<not> silentNavigation (cycles s ! cid) \<and>
          pc (cycles s ! cid) = Finished \<longrightarrow>
            count_list (trace s) (ListenersReleased cid) = 1) \<and>
         (cid < length (cycles s) \<and>
          (silentNavigation (cycles s ! cid) \<or> pc (cycles s ! cid) = Cancelled \<or>
           pc (cycles s ! cid) = CancelFailed) \<longrightarrow>
            count_list (trace s) (ListenersReleased cid) = 0) \<and>
         (\<forall>script s'. step E (Cyc cid (AfterUnmountAll script)) s = Some s' \<longrightarrow>
            new_obs s s' =
              (if \<not> silentNavigation (cycles s ! cid) then
                 ListenersReleased cid #
                 map (\<lambda>(listener, ev). ListenerCalled cid listener ev)
                   (fst (replay (started s)
                      (map p_eventArguments (pendingPromises (cycles s ! cid)) @
                       [eventArguments (cycles s ! cid)])
                      script (window s)))
               else [])) \<and>
         (\<forall>script s'. step E (Cyc cid (AfterLoads script)) s = Some s' \<longrightarrow>
            new_obs s s' =
              (if \<not> silentNavigation (cycles s ! cid) then
                 ListenersReleased cid #
                 map (\<lambda>(listener, ev). ListenerCalled cid listener ev)
                   (fst (replay (started s)
                      (map p_eventArguments (pendingPromises (cycles s ! cid)) @
                       [eventArguments (cycles s ! cid)])
                      script (window s)))
               else [])) \<and>
         (\<forall>l s'. step E l s = Some s' \<and> ListenersReleased cid \<in> set (new_obs s s') \<longrightarrow>
            cid < length (cycles s) \<and> \<not> silentNavigation (cycles s ! cid) \<and>
            (pc (cycles s ! cid) = AwaitUnmountAll \<and>
             unmountAllPromise (cycles s ! cid) \<noteq> Pending \<or>
             pc (cycles s ! cid) = LoadAwait \<and>
             (list_ex (\<lambda>p. p = Rejected) (loadPromises (cycles s ! cid)) \<or>
              list_all (\<lambda>p. p = Fulfilled) (loadPromises (cycles s ! cid))))) \<and>
         (\<forall>s'. step E (Cyc cid AfterMounts) s = Some s' \<longrightarrow>
            filter is_release (new_obs s s') = [] \<and>
            filter is_listener_call (new_obs s s') = []) \<and>
         (\<forall>patched ev events script w.
            fst (replay patched (ev # events) script w) =
              callCapturedEventListeners ev w @
              fst (replay patched events (drop (length (callCapturedEventListeners ev w)) script)
                     (fold (window_action patched)
                        (concat (take (length (callCapturedEventListeners ev w)) script)) w))) \<and>
         (\<forall>patched events w.
            fst (replay patched events [] w) =
              concat (map (\<lambda>ev. callCapturedEventListeners ev w) events)) \<and>
         (\<forall>ev w. ev_type ev \<in> set routingEventsListeningTo \<longrightarrow>
            callCapturedEventListeners (Some ev) w =
              map (\<lambda>listener. (listener, ev)) (captured (ev_type ev) w)) \<and>
         (\<forall>k f w. k \<in> set routingEventsListeningTo \<and> f \<notin> set (captured k w) \<longrightarrow>
            captured k (addEventListener k (JFun f) w) = captured k w @ [f])"
proof -
  have inv: "all_inv s" using all_inv_exec[OF all_inv_boot assms(1)] .
  then have r: "count_list (trace s) (ListenersReleased cid) =
           (if cid < length (cycles s) \<and> has_released (cycles s ! cid) then 1 else 0)"
    by (simp add: all_inv_def release_inv_def)
  have 2: "cid < length (cycles s) \<and> \<not> silentNavigation (cycles s ! cid) \<and>
          pc (cycles s ! cid) = Finished \<longrightarrow>
            count_list (trace s) (ListenersReleased cid) = 1"
    using r by (simp add: has_released_def)
  have 3: "cid < length (cycles s) \<and>
          (silentNavigation (cycles s ! cid) \<or> pc (cycles s ! cid) = Cancelled \<or>
           pc (cycles s ! cid) = CancelFailed) \<longrightarrow>
            count_list (trace s) (ListenersReleased cid) = 0"
    using r by (auto simp: has_released_def)
  have 4: "new_obs s s' =
              (if \<not> silentNavigation (cycles s ! cid) then
                 ListenersReleased cid #
                 map (\<lambda>(listener, ev). ListenerCalled cid listener ev)
                   (fst (replay (started s)
                      (map p_eventArguments (pendingPromises (cycles s ! cid)) @
                       [eventArguments (cycles s ! cid)])
                      script (window s)))
               else [])"
    if "step E (Cyc cid (AfterUnmountAll script)) s = Some s'" for script s'
    using release_step[OF that]
    by (simp add: callAllEventListeners_def split_def Let_def)
  have 5: "new_obs s s' =
              (if \<not> silentNavigation (cycles s ! cid) then
                 ListenersReleased cid #
                 map (\<lambda>(listener, ev). ListenerCalled cid listener ev)
                   (fst (replay (started s)
                      (map p_eventArguments (pendingPromises (cycles s ! cid)) @
                       [eventArguments (cycles s ! cid)])
                      script (window s)))
               else [])"
    if "step E (Cyc cid (AfterLoads script)) s = Some s'" for script s'
    using load_release_step[OF that]
    by (simp add: callAllEventListeners_def split_def Let_def)
  have 7: "fst (replay patched events [] w) =
              concat (map (\<lambda>ev. callCapturedEventListeners ev w) events)" for patched events w
    by (simp add: replay_untouched)
  have 8: "ev_type ev \<in> set routingEventsListeningTo \<longrightarrow>
            callCapturedEventListeners (Some ev) w =
              map (\<lambda>listener. (listener, ev)) (captured (ev_type ev) w)" for ev w
    by (simp add: callCapturedEventListeners_def)
  have a4: "\<forall>script s'. step E (Cyc cid (AfterUnmountAll script)) s = Some s' \<longrightarrow>
            new_obs s s' =
              (if \<not> silentNavigation (cycles s ! cid) then
                 ListenersReleased cid #
                 map (\<lambda>(listener, ev). ListenerCalled cid listener ev)
                   (fst (replay (started s)
                      (map p_eventArguments (pendingPromises (cycles s ! cid)) @
                       [eventArguments (cycles s ! cid)])
                      script (window s)))
               else [])"
    using 4 by blast
  have a5: "\<forall>script s'. step E (Cyc cid (AfterLoads script)) s = Some s' \<longrightarrow>
            new_obs s s' =
              (if \<not> silentNavigation (cycles s ! cid) then
                 ListenersReleased cid #
                 map (\<lambda>(listener, ev). ListenerCalled cid listener ev)
                   (fst (replay (started s)
                      (map p_eventArguments (pendingPromises (cycles s ! cid)) @
                       [eventArguments (cycles s ! cid)])
                      script (window s)))
               else [])"
    using 5 by blast
  have a5b: "\<forall>l s'. step E l s = Some s' \<and> ListenersReleased cid \<in> set (new_obs s s') \<longrightarrow>
            cid < length (cycles s) \<and> \<not> silentNavigation (cycles s ! cid) \<and>
            (pc (cycles s ! cid) = AwaitUnmountAll \<and>
             unmountAllPromise (cycles s ! cid) \<noteq> Pending \<or>
             pc (cycles s ! cid) = LoadAwait \<and>
             (list_ex (\<lambda>p. p = Rejected) (loadPromises (cycles s ! cid)) \<or>
              list_all (\<lambda>p. p = Fulfilled) (loadPromises (cycles s ! cid))))"
    using release_at_boundary by blast
  have a6: "\<forall>s'. step E (Cyc cid AfterMounts) s = Some s' \<longrightarrow>
            filter is_release (new_obs s s') = [] \<and>
            filter is_listener_call (new_obs s s') = []"
    using completion_step_no_release by blast
  have a7: "\<forall>patched ev events script w.
            fst (replay patched (ev # events) script w) =
              callCapturedEventListeners ev w @
              fst (replay patched events (drop (length (callCapturedEventListeners ev w)) script)
                     (fold (window_action patched)
                        (concat (take (length (callCapturedEventListeners ev w)) script)) w))"
    using replay_next by blast
  have a8: "\<forall>patched events w.
            fst (replay patched events [] w) =
              concat (map (\<lambda>ev. callCapturedEventListeners ev w) events)"
    using 7 by blast
  have a9: "\<forall>ev w. ev_type ev \<in> set routingEventsListeningTo \<longrightarrow>
            callCapturedEventListeners (Some ev) w =
              map (\<lambda>listener. (listener, ev)) (captured (ev_type ev) w)"
    using 8 by blast
  have a10: "\<forall>k f w. k \<in> set routingEventsListeningTo \<and> f \<notin> set (captured k w) \<longrightarrow>
            captured k (addEventListener k (JFun f) w) = captured k w @ [f]"
    using add_appends by blast
  show ?thesis
    by (rule conjI[OF r conjI[OF 2 conjI[OF 3 conjI[OF a4 conjI[OF a5 conjI[OF a5b conjI[OF a6
          conjI[OF a7 conjI[OF a8 conjI[OF a9 a10]]]]]]]]]])
qed

text \<open>
  The theorem on the page where nothing changes, with the listeners 5 and 6 of
  \<open>popstate\<close> and 7 of \<open>hashchange\<close>, and a cycle that batches a \<open>popstate\<close> and a
  \<open>hashchange\<close> event: one release, 5 and 6 called with the first event, 7 with the
  second; when 5 removes 7 while it is called, 7 is not called; the completion of the
  cycle adds no release.
\<close>

theorem listeners_released_once_witness:
  "new_obs (batch_page AwaitUnmountAll True batch_window [])
     (batch_page AwaitMounts True batch_window batch_release) =
     [ListenersReleased 1, ListenerCalled 1 5 pop1, ListenerCalled 1 6 pop1,
      ListenerCalled 1 7 hash2] \<and>
   new_obs (batch_page AwaitUnmountAll True batch_window [])
     (batch_page AwaitMounts True batch_window_removed
        [ListenersReleased 1, ListenerCalled 1 5 pop1, ListenerCalled 1 6 pop1]) =
     [ListenersReleased 1, ListenerCalled 1 5 pop1, ListenerCalled 1 6 pop1] \<and>
   map p_eventArguments (pendingPromises (cycles (batch_page AwaitUnmountAll True batch_window []) ! 1)) =
     [Some pop1, Some hash2] \<and>
   count_list (trace (batch_page AwaitUnmountAll True batch_window [])) (ListenersReleased 1) = 0 \<and>
   count_list (trace (batch_page AwaitMounts True batch_window batch_release))
     (ListenersReleased 1) = 1 \<and>
   filter is_release
     (new_obs (batch_page AwaitMounts True batch_window batch_release)
        (batch_page Finished False batch_window (batch_release @ batch_completion))) = [] \<and>
   count_list (trace (batch_page Finished False batch_window (batch_release @ batch_completion)))
     (ListenersReleased 1) = 1"
proof -
  have 1: "new_obs (batch_page AwaitUnmountAll True batch_window [])
     (batch_page AwaitMounts True batch_window batch_release) =
     [ListenersReleased 1, ListenerCalled 1 5 pop1, ListenerCalled 1 6 pop1,
      ListenerCalled 1 7 hash2]"
    using listeners_released_once[OF batch_run_state, of 1] batch_release_step
    by (simp add: release_defs cancel_defs quiet_defs new_obs_def)
  have 2: "new_obs (batch_page AwaitUnmountAll True batch_window [])
     (batch_page AwaitMounts True batch_window_removed
        [ListenersReleased 1, ListenerCalled 1 5 pop1, ListenerCalled 1 6 pop1]) =
     [ListenersReleased 1, ListenerCalled 1 5 pop1, ListenerCalled 1 6 pop1]"
    using listeners_released_once[OF batch_run_state, of 1] batch_removing_step
    by (simp add: release_defs cancel_defs quiet_defs new_obs_def)
  have 3: "count_list (trace (batch_page AwaitMounts True batch_window batch_release))
     (ListenersReleased 1) = 1"
    using listeners_released_once[OF batch_released_state, of 1]
    by (simp add: release_defs cancel_defs quiet_defs has_released_def)
  have 4: "filter is_release
     (new_obs (batch_page AwaitMounts True batch_window batch_release)
        (batch_page Finished False batch_window (batch_release @ batch_completion))) = []"
    using listeners_released_once[OF batch_released_state, of 1] batch_completion_step
    by blast
  show ?thesis using 1 2 3 4 by (simp add: release_defs cancel_defs quiet_defs)
qed

text \<open>
  Against C5 as worded (released twice, again at full completion): a cycle that is not
  silent runs to its end for a \<open>popstate\<close> event, with one listener of \<open>popstate\<close>
  captured. All it lets be observed is one release with one call of the listener, between
  the event before mounting and the events of completion.
\<close>

theorem released_twice_counterexample:
  "exec (active_at ''http://h/b'') once_run (boot ''http://h'' ''/b'' no_changes) = Some once_page \<and>
   pc (cycles once_page ! 1) = Finished \<and>
   \<not> silentNavigation (cycles once_page ! 1) \<and>
   eventArguments (cycles once_page ! 1) = Some pop1 \<and>
   popstateListeners (window once_page) = [5] \<and>
   filter (\<lambda>ob. obs_cycle ob = 1) (trace once_page) =
     [Dispatched 1 ''before-no-app-change'', Dispatched 1 ''before-routing-event'',
      Dispatched 1 ''before-mount-routing-event'',
      ListenersReleased 1, ListenerCalled 1 5 pop1,
      Dispatched 1 ''no-app-change'', Dispatched 1 ''routing-event''] \<and>
   count_list (trace once_page) (ListenersReleased 1) = 1 \<and>
   length (filter is_listener_call (trace once_page)) = 1"
  by (simp add: release_defs cancel_defs quiet_defs run_defs)

end
